theory Spec2Isabelle
  imports Complex_Main
begin

section \<open>Data model\<close>

text \<open>
  The TypeScript type \<^verbatim>\<open>Player = 'player' | 'ia' | ''\<close> serves both as the content of
  a cell and as the name of a side.
\<close>

datatype Player = P_player | P_ia | P_empty

text \<open>
  The exceptions the two services can raise are the runtime's: \<^verbatim>\<open>TypeError\<close>, when a
  property of \<^verbatim>\<open>undefined\<close> is read or written (\<^verbatim>\<open>board[r][c]\<close> with no row \<^verbatim>\<open>r\<close>),
  and \<^verbatim>\<open>RangeError\<close>, when an array of more than \<open>2^32 - 1\<close> elements is asked for.
  A computation that may throw returns \<open>error + 'a\<close>, \<open>Inl\<close> being the exception.
\<close>

datatype error = TypeError | RangeError

text \<open>
  A row is a JavaScript array of \<^verbatim>\<open>Player\<close>. Its indexed elements are \<open>elems\<close>, where
  \<open>None\<close> is a hole that reads as \<^verbatim>\<open>undefined\<close>; \<open>props\<close> holds what an assignment
  \<^verbatim>\<open>row[c] = v\<close> creates when \<^verbatim>\<open>c\<close> is not an array index: an ordinary property,
  outside the array's length, that a later \<^verbatim>\<open>row[c]\<close> reads back (the latest
  assignment first). The array indices are the integers from 0 to \<open>2^32 - 2\<close>.
  Coordinates are integers throughout (the source's \<^verbatim>\<open>number\<close> restricted to integral
  values).
\<close>

record Row =
  elems :: "Player option list"
  props :: "(int \<times> Player) list"

type_synonym Board = "Row list"

definition is_index :: "int \<Rightarrow> bool" where
  "is_index c = (0 \<le> c \<and> c < 4294967295)"

definition row_get :: "Row \<Rightarrow> int \<Rightarrow> Player option" where
  "row_get rw c =
     (if is_index c then
        (if c < int (length (elems rw)) then elems rw ! nat c else None)
      else map_of (props rw) c)"

text \<open>Assignment \<^verbatim>\<open>row[c] = v\<close>: at an index in range it overwrites, at an index beyond
  the end the array grows (the cells in between are holes), anywhere else it sets a
  property.\<close>

definition row_set :: "Row \<Rightarrow> int \<Rightarrow> Player \<Rightarrow> Row" where
  "row_set rw c v =
     (if is_index c then
        (if c < int (length (elems rw)) then rw\<lparr>elems := (elems rw)[nat c := Some v]\<rparr>
         else rw\<lparr>elems := elems rw @ replicate (nat c - length (elems rw)) None @ [Some v]\<rparr>)
      else rw\<lparr>props := (c, v) # props rw\<rparr>)"

text \<open>\<^verbatim>\<open>row.slice()\<close>: a new array with the indexed elements only.\<close>

definition row_slice :: "Row \<Rightarrow> Row" where
  "row_slice rw = \<lparr>elems = elems rw, props = []\<rparr>"

text \<open>\<^verbatim>\<open>Array(n).fill('')\<close>\<close>

definition empty_row :: "nat \<Rightarrow> Row" where
  "empty_row n = \<lparr>elems = replicate n (Some P_empty), props = []\<rparr>"

text \<open>The read \<^verbatim>\<open>board[r][c]\<close> and the write \<^verbatim>\<open>board[r][c] = v\<close>. Both throw when
  \<^verbatim>\<open>board[r]\<close> is \<^verbatim>\<open>undefined\<close>.\<close>

definition rd :: "Board \<Rightarrow> int \<Rightarrow> int \<Rightarrow> error + Player option" where
  "rd b r c =
     (if 0 \<le> r \<and> r < int (length b) then Inr (row_get (b ! nat r) c) else Inl TypeError)"

definition wr :: "Board \<Rightarrow> int \<Rightarrow> int \<Rightarrow> Player \<Rightarrow> error + Board" where
  "wr b r c v =
     (if 0 \<le> r \<and> r < int (length b) then Inr (b[nat r := row_set (b ! nat r) c v])
      else Inl TypeError)"

text \<open>\<^verbatim>\<open>p === 'player' ? 'ia' : 'player'\<close>, written out in both services.\<close>

definition opponent :: "Player \<Rightarrow> Player" where
  "opponent p = (if p = P_player then P_ia else P_player)"

text \<open>The eight directions, in the order of the source's array literal.\<close>

definition directions :: "(int \<times> int) list" where
  "directions = [(-1, -1), (-1, 0), (-1, 1), (0, -1), (0, 1), (1, -1), (1, 0), (1, 1)]"

text \<open>
  The inner \<^verbatim>\<open>while (inBounds(r, c))\<close> loop of \<^verbatim>\<open>getFlippableDiscs\<close>, the same in both
  services but for the bound \<open>n\<close> that \<^verbatim>\<open>inBounds\<close> compares with (\<^verbatim>\<open>this.size\<close> in the
  game logic, \<^verbatim>\<open>board.length\<close> in the AI). The result is what the loop appends to the
  list of flippable discs: the run \<open>temp\<close> when the ray ends on a disc of \<open>pl\<close>, nothing
  otherwise. The source only walks the eight directions above; the test
  \<open>dx \<noteq> 0 \<or> dy \<noteq> 0\<close> keeps the recursion total at the direction it never uses.
\<close>

function walk ::
  "int \<Rightarrow> Board \<Rightarrow> Player \<Rightarrow> Player \<Rightarrow> int \<Rightarrow> int \<Rightarrow> int \<Rightarrow> int \<Rightarrow> (int \<times> int) list
    \<Rightarrow> error + (int \<times> int) list" where
  "walk n b opp pl dx dy r c temp =
     (if (0 \<le> r \<and> r < n \<and> 0 \<le> c \<and> c < n) \<and> (dx \<noteq> 0 \<or> dy \<noteq> 0) then
        (case rd b r c of
           Inl e \<Rightarrow> Inl e
         | Inr v \<Rightarrow>
             if v = Some opp then walk n b opp pl dx dy (r + dx) (c + dy) (temp @ [(r, c)])
             else if v = Some pl then Inr temp
             else Inr [])
      else Inr [])"
  by pat_completeness auto
termination
  by (relation "measure (\<lambda>(n, b, opp, pl, dx, dy, r, c, temp).
        nat (if dx > 0 then n - r else if dx < 0 then r + 1
             else if dy > 0 then n - c else c + 1))") auto

text \<open>The \<^verbatim>\<open>for (const [dx, dy] of directions)\<close> loop: the runs of all directions, in
  order; an exception in one direction ends the loop.\<close>

fun collect :: "('a \<Rightarrow> error + 'b list) \<Rightarrow> 'a list \<Rightarrow> error + 'b list" where
  "collect f [] = Inr []"
| "collect f (d # ds) =
     (case f d of
        Inl e \<Rightarrow> Inl e
      | Inr t \<Rightarrow> (case collect f ds of Inl e \<Rightarrow> Inl e | Inr rest \<Rightarrow> Inr (t @ rest)))"

text \<open>A loop that pushes the elements passing a test that may throw.\<close>

fun filterE :: "('a \<Rightarrow> error + bool) \<Rightarrow> 'a list \<Rightarrow> error + 'a list" where
  "filterE f [] = Inr []"
| "filterE f (x # xs) =
     (case f x of
        Inl e \<Rightarrow> Inl e
      | Inr t \<Rightarrow> (case filterE f xs of
                    Inl e \<Rightarrow> Inl e
                  | Inr rest \<Rightarrow> Inr (if t then x # rest else rest)))"

text \<open>The cells visited by \<^verbatim>\<open>for (r < n) for (c < n)\<close>, in row-major order.\<close>

definition cells :: "int \<Rightarrow> (int \<times> int) list" where
  "cells n = concat (map (\<lambda>r. map (\<lambda>c. (r, c)) [0..n - 1]) [0..n - 1])"

section \<open>The game logic service (gamelogical.service.ts)\<close>

record FlippedPawn =
  fp_row :: int
  fp_col :: int
  fp_from :: Player
  fp_to :: Player

text \<open>The fields of \<^verbatim>\<open>GameLogicService\<close>; \<open>bsize\<close> is the field \<^verbatim>\<open>size\<close>.\<close>

record GameLogicService =
  board :: Board
  bsize :: int
  currentPlayer :: Player
  lastFlipped :: "FlippedPawn list"

definition inBounds :: "GameLogicService \<Rightarrow> int \<Rightarrow> int \<Rightarrow> bool" where
  "inBounds s x y = (x \<ge> 0 \<and> x < bsize s \<and> y \<ge> 0 \<and> y < bsize s)"

definition getFlippableDiscs ::
  "GameLogicService \<Rightarrow> int \<Rightarrow> int \<Rightarrow> Player \<Rightarrow> error + (int \<times> int) list" where
  "getFlippableDiscs s row col pl =
     collect (\<lambda>(dx, dy). walk (bsize s) (board s) (opponent pl) pl dx dy (row + dx) (col + dy) [])
       directions"

definition isValidMove :: "GameLogicService \<Rightarrow> int \<Rightarrow> int \<Rightarrow> Player \<Rightarrow> error + bool" where
  "isValidMove s row col pl =
     (case rd (board s) row col of
        Inl e \<Rightarrow> Inl e
      | Inr v \<Rightarrow>
          if v \<noteq> Some P_empty then Inr False
          else (case getFlippableDiscs s row col pl of
                  Inl e \<Rightarrow> Inl e
                | Inr fl \<Rightarrow> Inr (length fl > 0)))"

definition getValidMoves :: "GameLogicService \<Rightarrow> Player \<Rightarrow> error + (int \<times> int) list" where
  "getValidMoves s pl = filterE (\<lambda>(r, c). isValidMove s r c pl) (cells (bsize s))"

text \<open>The loop \<^verbatim>\<open>for (const f of flippedDiscs) this.board[f.r][f.c] = to\<close>. The board is
  mutated in place, so an exception leaves the writes made so far.\<close>

fun flipLoop :: "Board \<Rightarrow> (int \<times> int) list \<Rightarrow> Player \<Rightarrow> (error + unit) \<times> Board" where
  "flipLoop b [] to = (Inr (), b)"
| "flipLoop b (f # fs) to =
     (case wr b (fst f) (snd f) to of
        Inl e \<Rightarrow> (Inl e, b)
      | Inr b' \<Rightarrow> flipLoop b' fs to)"

text \<open>\<^verbatim>\<open>playMove\<close> returns its result (or the exception) and the service afterwards.\<close>

definition playMove ::
  "int \<Rightarrow> int \<Rightarrow> GameLogicService \<Rightarrow> (error + bool) \<times> GameLogicService" where
  "playMove row col s =
     (case isValidMove s row col (currentPlayer s) of
        Inl e \<Rightarrow> (Inl e, s)
      | Inr valid \<Rightarrow>
          if \<not> valid then (Inr False, s)
          else
            let to = currentPlayer s in
            (case getFlippableDiscs s row col (currentPlayer s) of
               Inl e \<Rightarrow> (Inl e, s)
             | Inr flippedDiscs \<Rightarrow>
                 (case flipLoop (board s) flippedDiscs to of
                    (Inl e, b1) \<Rightarrow> (Inl e, s\<lparr>board := b1\<rparr>)
                  | (Inr _, b1) \<Rightarrow>
                      (case wr b1 row col to of
                         Inl e \<Rightarrow> (Inl e, s\<lparr>board := b1\<rparr>)
                       | Inr b2 \<Rightarrow>
                           (Inr True,
                            s\<lparr>board := b2,
                              lastFlipped :=
                                map (\<lambda>f. \<lparr>fp_row = fst f, fp_col = snd f,
                                          fp_from = (if to = P_player then P_ia else P_player),
                                          fp_to = to\<rparr>) flippedDiscs
                                @ [\<lparr>fp_row = row, fp_col = col, fp_from = P_empty, fp_to = to\<rparr>],
                              currentPlayer :=
                                (if currentPlayer s = P_player then P_ia else P_player)\<rparr>)))))"

text \<open>
  \<^verbatim>\<open>initBoard(size)\<close>. The field \<^verbatim>\<open>size\<close> is assigned first. Then
  \<^verbatim>\<open>Array.from({length: size}, ...)\<close> constructs the outer array: for a size of \<open>2^32\<close>
  or more that construction throws \<^verbatim>\<open>RangeError\<close>, before \<^verbatim>\<open>this.board\<close> is assigned;
  for \<open>size \<le> 0\<close> the result is the empty array; otherwise it holds \<open>size\<close> rows
  \<^verbatim>\<open>Array(size).fill('')\<close>. For an odd \<open>size\<close>, \<^verbatim>\<open>mid = size / 2\<close> is not an integer,
  \<^verbatim>\<open>this.board[mid - 1]\<close> is \<^verbatim>\<open>undefined\<close> and the first of the four assignments throws.
  The assignments mutate the board in place, so an exception leaves those made so far.
  Storage is taken as unbounded: at every size the model follows the semantics of the
  language, not the memory limit of an engine.
\<close>

definition initBoard :: "int \<Rightarrow> GameLogicService \<Rightarrow> (error + unit) \<times> GameLogicService" where
  "initBoard sz s =
     (let s1 = s\<lparr>bsize := sz\<rparr> in
      if 4294967296 \<le> sz then (Inl RangeError, s1)
      else
        let s2 = s1\<lparr>board := replicate (nat sz) (empty_row (nat sz))\<rparr>
        in if odd sz then (Inl TypeError, s2)
           else
             let mid = sz div 2 in
             (case wr (board s2) (mid - 1) (mid - 1) P_player of
                Inl e \<Rightarrow> (Inl e, s2)
              | Inr b1 \<Rightarrow>
                  (case wr b1 mid mid P_player of
                     Inl e \<Rightarrow> (Inl e, s2\<lparr>board := b1\<rparr>)
                   | Inr b2 \<Rightarrow>
                       (case wr b2 (mid - 1) mid P_ia of
                          Inl e \<Rightarrow> (Inl e, s2\<lparr>board := b2\<rparr>)
                        | Inr b3 \<Rightarrow>
                            (case wr b3 mid (mid - 1) P_ia of
                               Inl e \<Rightarrow> (Inl e, s2\<lparr>board := b3\<rparr>)
                             | Inr b4 \<Rightarrow>
                                 (Inr (),
                                  s2\<lparr>board := b4, currentPlayer := P_player,
                                     lastFlipped := []\<rparr>))))))"

section \<open>The AI service (game-ai.service.ts)\<close>

text \<open>
  A JavaScript number that may be \<^verbatim>\<open>-Infinity\<close> or \<^verbatim>\<open>Infinity\<close>. Every finite number
  the service computes is an integer of small magnitude, which a double holds exactly;
  the model computes with reals.
\<close>

datatype jsnum = NegInf | Num real | PosInf

instantiation jsnum :: linorder
begin

definition less_eq_jsnum :: "jsnum \<Rightarrow> jsnum \<Rightarrow> bool" where
  "less_eq_jsnum x y =
     (case x of
        NegInf \<Rightarrow> True
      | Num a \<Rightarrow> (case y of NegInf \<Rightarrow> False | Num b \<Rightarrow> a \<le> b | PosInf \<Rightarrow> True)
      | PosInf \<Rightarrow> (case y of PosInf \<Rightarrow> True | _ \<Rightarrow> False))"

definition less_jsnum :: "jsnum \<Rightarrow> jsnum \<Rightarrow> bool" where
  "less_jsnum x y = (x \<le> y \<and> \<not> y \<le> (x::jsnum))"

instance
  by standard (auto simp: less_eq_jsnum_def less_jsnum_def split: jsnum.splits)

end

text \<open>A loop that threads an accumulator through a body that may throw.\<close>

fun foldE :: "('a \<Rightarrow> 's \<Rightarrow> error + 's) \<Rightarrow> 'a list \<Rightarrow> 's \<Rightarrow> error + 's" where
  "foldE f [] s = Inr s"
| "foldE f (x # xs) s = (case f x s of Inl e \<Rightarrow> Inl e | Inr s' \<Rightarrow> foldE f xs s')"

definition ai_getFlippableDiscs ::
  "Board \<Rightarrow> int \<Rightarrow> int \<Rightarrow> Player \<Rightarrow> error + (int \<times> int) list" where
  "ai_getFlippableDiscs b row col pl =
     (case rd b row col of
        Inl e \<Rightarrow> Inl e
      | Inr v \<Rightarrow>
          if v \<noteq> Some P_empty then Inr []
          else collect (\<lambda>(dx, dy). walk (int (length b)) b (opponent pl) pl dx dy
                                     (row + dx) (col + dy) []) directions)"

definition ai_getValidMoves :: "Board \<Rightarrow> Player \<Rightarrow> error + (int \<times> int) list" where
  "ai_getValidMoves b pl =
     filterE (\<lambda>(r, c).
        case rd b r c of
          Inl e \<Rightarrow> Inl e
        | Inr v \<Rightarrow>
            if v = Some P_empty then
              (case ai_getFlippableDiscs b r c pl of
                 Inl e \<Rightarrow> Inl e
               | Inr fl \<Rightarrow> Inr (length fl > 0))
            else Inr False)
       (cells (int (length b)))"

text \<open>\<^verbatim>\<open>applyMove\<close>: the rows are copied (\<^verbatim>\<open>board.map(rowArr => rowArr.slice())\<close>), the
  capture set is computed on the board given, and the copy is written.\<close>

definition applyMove :: "Board \<Rightarrow> int \<Rightarrow> int \<Rightarrow> Player \<Rightarrow> error + Board" where
  "applyMove b row col pl =
     (let next = map row_slice b in
      case ai_getFlippableDiscs b row col pl of
        Inl e \<Rightarrow> Inl e
      | Inr flips \<Rightarrow>
          (case foldE (\<lambda>f nx. wr nx (fst f) (snd f) pl) flips next of
             Inl e \<Rightarrow> Inl e
           | Inr nx \<Rightarrow> wr nx row col pl))"

definition isTerminal :: "Board \<Rightarrow> error + bool" where
  "isTerminal b =
     (case ai_getValidMoves b P_player of
        Inl e \<Rightarrow> Inl e
      | Inr ms \<Rightarrow>
          if length ms = 0 then
            (case ai_getValidMoves b P_ia of Inl e \<Rightarrow> Inl e | Inr ms' \<Rightarrow> Inr (length ms' = 0))
          else Inr False)"

text \<open>The three loops of \<^verbatim>\<open>evaluate\<close> that add or subtract a weight per cell: \<open>w\<close> for a
  cell of \<open>root\<close>, \<open>- w\<close> for a cell of \<open>opp\<close>.\<close>

definition tally ::
  "Board \<Rightarrow> Player \<Rightarrow> Player \<Rightarrow> int \<Rightarrow> (int \<times> int) list \<Rightarrow> error + int" where
  "tally b rootPl opp w coords =
     foldE (\<lambda>(r, c) acc.
        case rd b r c of
          Inl e \<Rightarrow> Inl e
        | Inr v \<Rightarrow> Inr (if v = Some rootPl then acc + w
                        else if v = Some opp then acc - w else acc))
       coords 0"

text \<open>The counting loop of \<^verbatim>\<open>evaluate\<close>: (rootCount, oppCount, empties).\<close>

definition counts :: "Board \<Rightarrow> Player \<Rightarrow> Player \<Rightarrow> error + (int \<times> int \<times> int)" where
  "counts b rootPl opp =
     foldE (\<lambda>(r, c) (rc, oc, em).
        case rd b r c of
          Inl e \<Rightarrow> Inl e
        | Inr v \<Rightarrow> Inr (if v = Some rootPl then (rc + 1, oc, em)
                        else if v = Some opp then (rc, oc + 1, em)
                        else (rc, oc, em + 1)))
       (cells (int (length b))) (0, 0, 0)"

text \<open>Sequencing: the rest of the function runs on the value, an exception ends it.\<close>

definition bindE :: "error + 'a \<Rightarrow> ('a \<Rightarrow> error + 'b) \<Rightarrow> error + 'b" where
  "bindE m f = (case m of Inl e \<Rightarrow> Inl e | Inr x \<Rightarrow> f x)"

definition evaluate :: "Board \<Rightarrow> Player \<Rightarrow> error + real" where
  "evaluate b rootPl =
     (let opp = opponent rootPl; n = int (length b) in
      bindE (counts b rootPl opp) (\<lambda>(rootCount, oppCount, empties).
      let pieceDiff = rootCount - oppCount in
      bindE (ai_getValidMoves b rootPl) (\<lambda>rootMoves.
      bindE (ai_getValidMoves b opp) (\<lambda>oppMoves.
      let mobility = int (length rootMoves) - int (length oppMoves) in
      bindE (tally b rootPl opp 30 [(0, 0), (0, n - 1), (n - 1, 0), (n - 1, n - 1)])
        (\<lambda>cornerScore.
      bindE (tally b rootPl opp 4
               (concat (map (\<lambda>i. [(0, i), (n - 1, i), (i, 0), (i, n - 1)]) [1..n - 2])))
        (\<lambda>edgeScore.
      bindE (tally b rootPl opp (- 8) [(1, 1), (1, n - 2), (n - 2, 1), (n - 2, n - 2)])
        (\<lambda>xPenalty.
      let endgameFactor = (if empties \<le> 12 then 2 else 1 :: real) in
      Inr (real_of_int (10 * mobility)
           + real_of_int (5 * edgeScore)
           + real_of_int (50 * cornerScore) / 30
           + 2 * endgameFactor * real_of_int pieceDiff
           + real_of_int (- 1 * xPenalty)))))))))"

text \<open>
  The two move loops of \<^verbatim>\<open>minimax\<close>. The body \<open>f m alpha beta\<close> is the value of the
  child reached by move \<open>m\<close>, searched with the bounds of that iteration.
\<close>

fun maxLoop ::
  "('m \<Rightarrow> jsnum \<Rightarrow> jsnum \<Rightarrow> error + jsnum) \<Rightarrow> 'm list \<Rightarrow> jsnum \<Rightarrow> jsnum \<Rightarrow> jsnum
    \<Rightarrow> error + jsnum" where
  "maxLoop f [] val alpha beta = Inr val"
| "maxLoop f (m # ms) val alpha beta =
     (case f m alpha beta of
        Inl e \<Rightarrow> Inl e
      | Inr x \<Rightarrow>
          let val' = max val x; alpha' = max alpha val'
          in if alpha' \<ge> beta then Inr val' else maxLoop f ms val' alpha' beta)"

fun minLoop ::
  "('m \<Rightarrow> jsnum \<Rightarrow> jsnum \<Rightarrow> error + jsnum) \<Rightarrow> 'm list \<Rightarrow> jsnum \<Rightarrow> jsnum \<Rightarrow> jsnum
    \<Rightarrow> error + jsnum" where
  "minLoop f [] val alpha beta = Inr val"
| "minLoop f (m # ms) val alpha beta =
     (case f m alpha beta of
        Inl e \<Rightarrow> Inl e
      | Inr x \<Rightarrow>
          let val' = min val x; beta' = min beta val'
          in if alpha \<ge> beta' then Inr val' else minLoop f ms val' alpha beta')"

section \<open>Reads, writes and the ray walk\<close>

lemma rd_Inl_iff: "rd b r c = Inl e \<longleftrightarrow> e = TypeError \<and> \<not> (0 \<le> r \<and> r < int (length b))"
  by (cases e) (auto simp: rd_def)

lemma wr_Inl_iff: "wr b r c v = Inl e \<longleftrightarrow> e = TypeError \<and> \<not> (0 \<le> r \<and> r < int (length b))"
  by (cases e) (auto simp: wr_def)

lemma length_wr: "wr b r c v = Inr b' \<Longrightarrow> length b' = length b"
  by (auto simp: wr_def split: if_splits)

lemma row_get_row_set:
  "row_get (row_set rw c v) c' = (if c' = c then Some v else row_get rw c')"
  by (auto simp: row_get_def row_set_def is_index_def nth_append nth_list_update nat_eq_iff
      split: if_splits)

lemma rd_wr:
  "wr b r c v = Inr b' \<Longrightarrow>
     rd b' r' c' = (if r' = r \<and> c' = c then Inr (Some v) else rd b r' c')"
  by (auto simp: wr_def rd_def row_get_row_set nth_list_update nat_eq_iff split: if_splits)

lemma rd_slice: "is_index c \<Longrightarrow> rd (map row_slice b) r c = rd b r c"
  by (cases "0 \<le> r \<and> r < int (length b)") (auto simp: rd_def row_get_def row_slice_def)

lemma rd_slice_Some: "rd (map row_slice b) r c = Inr (Some p) \<Longrightarrow> rd b r c = Inr (Some p)"
  by (cases "0 \<le> r \<and> r < int (length b)")
    (auto simp: rd_def row_get_def row_slice_def split: if_splits)

lemma set_cells: "set (cells n) = {(r, c). 0 \<le> r \<and> r < n \<and> 0 \<le> c \<and> c < n}"
  by (auto simp: cells_def)

lemma distinct_cells: "distinct (cells n)"
  unfolding cells_def
  by (rule distinct_concat) (auto simp: distinct_map inj_on_def)

declare walk.simps [simp del]

lemma walk_ok:
  "n \<le> int (length b) \<Longrightarrow> \<exists>fl. walk n b opp pl dx dy r c temp = Inr fl"
proof (induction n b opp pl dx dy r c temp rule: walk.induct)
  case (1 n b opp pl dx dy r c temp)
  show ?case
  proof (cases "(0 \<le> r \<and> r < n \<and> 0 \<le> c \<and> c < n) \<and> (dx \<noteq> 0 \<or> dy \<noteq> 0)")
    case False
    then show ?thesis by (subst walk.simps) auto
  next
    case True
    with 1(2) have "rd b r c = Inr (row_get (b ! nat r) c)" by (simp add: rd_def)
    with True 1 show ?thesis by (subst walk.simps) auto
  qed
qed

lemma walk_set:
  "walk n b opp pl dx dy r c temp = Inr fl \<Longrightarrow> x \<in> set fl \<Longrightarrow>
     x \<in> set temp \<or>
     (0 \<le> fst x \<and> fst x < n \<and> 0 \<le> snd x \<and> snd x < n \<and> rd b (fst x) (snd x) = Inr (Some opp))"
proof (induction n b opp pl dx dy r c temp rule: walk.induct)
  case (1 n b opp pl dx dy r c temp)
  show ?case
  proof (cases "(0 \<le> r \<and> r < n \<and> 0 \<le> c \<and> c < n) \<and> (dx \<noteq> 0 \<or> dy \<noteq> 0)")
    case False
    with "1.prems" show ?thesis by (subst (asm) walk.simps) auto
  next
    case True
    show ?thesis
    proof (cases "rd b r c = Inr (Some opp)")
      case opp: True
      with True "1.prems"(1)
      have "walk n b opp pl dx dy (r + dx) (c + dy) (temp @ [(r, c)]) = Inr fl"
        by (subst (asm) walk.simps) auto
      from "1.IH"[OF True opp _ this "1.prems"(2)] opp True show ?thesis by auto
    next
      case False
      with True "1.prems" show ?thesis
        by (subst (asm) walk.simps) (auto split: if_splits sum.splits)
    qed
  qed
qed

lemma collect_ok:
  "\<forall>d \<in> set ds. \<exists>t. f d = Inr t \<Longrightarrow> \<exists>fl. collect f ds = Inr fl"
  by (induction ds) (auto split: sum.splits)

lemma collect_set:
  "collect f ds = Inr fl \<Longrightarrow> x \<in> set fl \<Longrightarrow> \<exists>d \<in> set ds. \<exists>t. f d = Inr t \<and> x \<in> set t"
  by (induction ds arbitrary: fl) (auto split: sum.splits)

lemma filterE_Inr:
  "filterE f xs = Inr ys \<Longrightarrow> ys = filter (\<lambda>x. f x = Inr True) xs"
  by (induction xs arbitrary: ys) (auto split: sum.splits if_splits)

lemma filterE_ok:
  "\<forall>x \<in> set xs. \<exists>t. f x = Inr t \<Longrightarrow> \<exists>ys. filterE f xs = Inr ys"
  by (induction xs) (auto split: sum.splits)

section \<open>Moves of the AI service\<close>

lemma ai_getFlippableDiscs_ok:
  assumes "0 \<le> row" "row < int (length b)"
  shows "\<exists>fl. ai_getFlippableDiscs b row col pl = Inr fl"
proof -
  from assms obtain v where v: "rd b row col = Inr v" by (auto simp: rd_def)
  have "\<exists>fl. collect (\<lambda>(dx, dy). walk (int (length b)) b (opponent pl) pl dx dy
                 (row + dx) (col + dy) []) directions = Inr fl"
    by (rule collect_ok) (auto intro: walk_ok)
  with v show ?thesis by (auto simp: ai_getFlippableDiscs_def)
qed

lemma ai_getFlippableDiscs_set:
  assumes "ai_getFlippableDiscs b row col pl = Inr fl" "x \<in> set fl"
  shows "0 \<le> fst x \<and> fst x < int (length b) \<and> 0 \<le> snd x \<and> snd x < int (length b)
         \<and> rd b (fst x) (snd x) = Inr (Some (opponent pl))"
  using assms
  by (auto simp: ai_getFlippableDiscs_def split: sum.splits if_splits
      dest!: collect_set dest: walk_set)

definition ai_valid :: "Board \<Rightarrow> Player \<Rightarrow> int \<times> int \<Rightarrow> bool" where
  "ai_valid b pl m =
     (rd b (fst m) (snd m) = Inr (Some P_empty) \<and>
      (\<exists>fl. ai_getFlippableDiscs b (fst m) (snd m) pl = Inr fl \<and> fl \<noteq> []))"

lemma ai_getValidMoves_eq:
  "ai_getValidMoves b pl = Inr (filter (ai_valid b pl) (cells (int (length b))))"
proof -
  let ?f = "\<lambda>(r, c). case rd b r c of Inl e \<Rightarrow> Inl e
        | Inr v \<Rightarrow> if v = Some P_empty then
              (case ai_getFlippableDiscs b r c pl of Inl e \<Rightarrow> Inl e
               | Inr fl \<Rightarrow> Inr (length fl > 0))
            else Inr False"
  have ok: "\<forall>x \<in> set (cells (int (length b))). \<exists>t. ?f x = Inr t"
  proof
    fix x assume "x \<in> set (cells (int (length b)))"
    then have r: "0 \<le> fst x" "fst x < int (length b)" by (auto simp: set_cells)
    from ai_getFlippableDiscs_ok[OF r] obtain fl
      where "ai_getFlippableDiscs b (fst x) (snd x) pl = Inr fl" by blast
    with r show "\<exists>t. ?f x = Inr t" by (cases x) (auto simp: rd_def)
  qed
  from filterE_ok[OF ok] obtain ys where ys: "filterE ?f (cells (int (length b))) = Inr ys" ..
  have "ys = filter (\<lambda>x. ?f x = Inr True) (cells (int (length b)))"
    by (rule filterE_Inr[OF ys])
  also have "\<dots> = filter (ai_valid b pl) (cells (int (length b)))"
    by (rule filter_cong) (auto simp: ai_valid_def split: sum.splits if_splits)
  finally show ?thesis using ys by (simp add: ai_getValidMoves_def)
qed

lemma foldE_wr:
  "foldE (\<lambda>f nx. wr nx (fst f) (snd f) pl) fl nx0 = Inr nx \<Longrightarrow>
     length nx = length nx0 \<and>
     (\<forall>r c. rd nx r c = (if (r, c) \<in> set fl then Inr (Some pl) else rd nx0 r c))"
proof (induction fl arbitrary: nx0)
  case Nil
  then show ?case by simp
next
  case (Cons f fl)
  from Cons.prems obtain n1 where n1: "wr nx0 (fst f) (snd f) pl = Inr n1"
    and rest: "foldE (\<lambda>f nx. wr nx (fst f) (snd f) pl) fl n1 = Inr nx"
    by (auto split: sum.splits)
  from Cons.IH[OF rest] length_wr[OF n1] rd_wr[OF n1] show ?case
    by (cases f) auto
qed

lemma foldE_wr_ok:
  "\<forall>f \<in> set fl. 0 \<le> fst f \<and> fst f < int (length nx0) \<Longrightarrow>
     \<exists>nx. foldE (\<lambda>f nx. wr nx (fst f) (snd f) pl) fl nx0 = Inr nx"
proof (induction fl arbitrary: nx0)
  case Nil
  then show ?case by simp
next
  case (Cons f fl)
  then obtain n1 where n1: "wr nx0 (fst f) (snd f) pl = Inr n1"
    by (auto simp: wr_def)
  from length_wr[OF n1] Cons.prems have "\<forall>f \<in> set fl. 0 \<le> fst f \<and> fst f < int (length n1)"
    by simp
  from Cons.IH[OF this] n1 show ?case by simp
qed

lemma applyMove_ok:
  assumes "0 \<le> row" "row < int (length b)"
  shows "\<exists>child. applyMove b row col pl = Inr child"
proof -
  from ai_getFlippableDiscs_ok[OF assms] obtain fl
    where fl: "ai_getFlippableDiscs b row col pl = Inr fl" by blast
  have "\<forall>f \<in> set fl. 0 \<le> fst f \<and> fst f < int (length (map row_slice b))"
    using ai_getFlippableDiscs_set[OF fl] by simp
  from foldE_wr_ok[OF this] obtain nx
    where nx: "foldE (\<lambda>f nx. wr nx (fst f) (snd f) pl) fl (map row_slice b) = Inr nx" by blast
  from foldE_wr[OF nx] assms obtain ch where "wr nx row col pl = Inr ch"
    by (auto simp: wr_def)
  with fl nx show ?thesis by (simp add: applyMove_def)
qed

lemma applyMove_rd:
  assumes "applyMove b row col pl = Inr child"
  shows "length child = length b"
    and "\<exists>fl. ai_getFlippableDiscs b row col pl = Inr fl \<and>
          (\<forall>r c. rd child r c =
             (if (r, c) = (row, col) \<or> (r, c) \<in> set fl then Inr (Some pl)
              else rd (map row_slice b) r c))"
proof -
  from assms obtain fl nx where fl: "ai_getFlippableDiscs b row col pl = Inr fl"
    and nx: "foldE (\<lambda>f nx. wr nx (fst f) (snd f) pl) fl (map row_slice b) = Inr nx"
    and ch: "wr nx row col pl = Inr child"
    by (auto simp: applyMove_def split: sum.splits)
  from foldE_wr[OF nx] length_wr[OF ch] show "length child = length b" by simp
  from foldE_wr[OF nx] rd_wr[OF ch] fl
  show "\<exists>fl. ai_getFlippableDiscs b row col pl = Inr fl \<and>
          (\<forall>r c. rd child r c =
             (if (r, c) = (row, col) \<or> (r, c) \<in> set fl then Inr (Some pl)
              else rd (map row_slice b) r c))"
    by auto
qed

definition empties :: "Board \<Rightarrow> nat" where
  "empties b =
     length (filter (\<lambda>(r, c). rd b r c = Inr (Some P_empty)) (cells (int (length b))))"

lemma length_filter_le_mono:
  "(\<And>y. y \<in> set xs \<Longrightarrow> Q y \<Longrightarrow> P y) \<Longrightarrow> length (filter Q xs) \<le> length (filter P xs)"
  by (induction xs) auto

lemma length_filter_less:
  "x \<in> set xs \<Longrightarrow> P x \<Longrightarrow> \<not> Q x \<Longrightarrow> (\<And>y. y \<in> set xs \<Longrightarrow> Q y \<Longrightarrow> P y) \<Longrightarrow>
     length (filter Q xs) < length (filter P xs)"
proof (induction xs)
  case Nil
  then show ?case by simp
next
  case (Cons a xs)
  have le: "length (filter Q xs) \<le> length (filter P xs)"
    by (rule length_filter_le_mono) (simp add: Cons.prems(4))
  show ?case
  proof (cases "x = a")
    case True
    with Cons.prems(2,3) le show ?thesis by auto
  next
    case False
    with Cons.prems have "length (filter Q xs) < length (filter P xs)"
      by (intro Cons.IH) auto
    with Cons.prems(4)[of a] show ?thesis by auto
  qed
qed

lemma applyMove_empties:
  assumes ch: "applyMove b row col pl = Inr child" and pl: "pl \<noteq> P_empty"
    and cell: "(row, col) \<in> set (cells (int (length b)))"
    and e: "rd b row col = Inr (Some P_empty)"
  shows "empties child < empties b"
proof -
  from applyMove_rd[OF ch] obtain fl where len: "length child = length b"
    and rdc: "\<And>r c. rd child r c =
             (if (r, c) = (row, col) \<or> (r, c) \<in> set fl then Inr (Some pl)
              else rd (map row_slice b) r c)"
    by blast
  show ?thesis
    unfolding empties_def len
  proof (rule length_filter_less[OF cell])
    show "case (row, col) of (r, c) \<Rightarrow> rd b r c = Inr (Some P_empty)" using e by simp
    show "\<not> (case (row, col) of (r, c) \<Rightarrow> rd child r c = Inr (Some P_empty))"
      using rdc[of row col] pl by simp
  next
    fix y :: "int \<times> int"
    assume "case y of (r, c) \<Rightarrow> rd child r c = Inr (Some P_empty)"
    then have "rd (map row_slice b) (fst y) (snd y) = Inr (Some P_empty)"
      using rdc[of "fst y" "snd y"] pl by (cases y) (auto split: if_splits)
    from rd_slice_Some[OF this]
    show "case y of (r, c) \<Rightarrow> rd b r c = Inr (Some P_empty)"
      by (cases y) simp
  qed
qed

section \<open>The search\<close>

lemma maxLoop_cong [fundef_cong]:
  "ms = ms' \<Longrightarrow> v = v' \<Longrightarrow> a = a' \<Longrightarrow> b = b' \<Longrightarrow>
   (\<And>m x y. m \<in> set ms' \<Longrightarrow> f m x y = g m x y) \<Longrightarrow>
   maxLoop f ms v a b = maxLoop g ms' v' a' b'"
  by (induction ms arbitrary: ms' v v' a a' b b') (auto simp: Let_def split: sum.splits)

lemma minLoop_cong [fundef_cong]:
  "ms = ms' \<Longrightarrow> v = v' \<Longrightarrow> a = a' \<Longrightarrow> b = b' \<Longrightarrow>
   (\<And>m x y. m \<in> set ms' \<Longrightarrow> f m x y = g m x y) \<Longrightarrow>
   minLoop f ms v a b = minLoop g ms' v' a' b'"
  by (induction ms arbitrary: ms' v v' a a' b b') (auto simp: Let_def split: sum.splits)

definition leaf :: "Board \<Rightarrow> Player \<Rightarrow> error + jsnum" where
  "leaf b rootPlayer = (case evaluate b rootPlayer of Inl e \<Rightarrow> Inl e | Inr x \<Rightarrow> Inr (Num x))"

function minimax ::
  "Board \<Rightarrow> int \<Rightarrow> jsnum \<Rightarrow> jsnum \<Rightarrow> Player \<Rightarrow> Player \<Rightarrow> error + jsnum" where
  "minimax b depth alpha beta rootPlayer toMove =
     (if depth = 0 then leaf b rootPlayer
      else
        case isTerminal b of
          Inl e \<Rightarrow> Inl e
        | Inr terminal \<Rightarrow>
            if terminal then leaf b rootPlayer
            else
              (case ai_getValidMoves b toMove of
                 Inl e \<Rightarrow> Inl e
               | Inr moves \<Rightarrow>
                   if length moves = 0 then
                     (case ai_getValidMoves b (opponent toMove) of
                        Inl e \<Rightarrow> Inl e
                      | Inr oppMoves \<Rightarrow>
                          if length oppMoves = 0 then leaf b rootPlayer
                          else minimax b depth alpha beta rootPlayer (opponent toMove))
                   else if toMove = rootPlayer then
                     maxLoop (\<lambda>m a be.
                        case applyMove b (fst m) (snd m) toMove of
                          Inl e \<Rightarrow> Inl e
                        | Inr child \<Rightarrow>
                            minimax child (depth - 1) a be rootPlayer (opponent toMove))
                       moves NegInf alpha beta
                   else
                     minLoop (\<lambda>m a be.
                        case applyMove b (fst m) (snd m) toMove of
                          Inl e \<Rightarrow> Inl e
                        | Inr child \<Rightarrow>
                            minimax child (depth - 1) a be rootPlayer (opponent toMove))
                       moves PosInf alpha beta))"
  by pat_completeness auto

definition search_rel ::
  "((Board \<times> int \<times> jsnum \<times> jsnum \<times> Player \<times> Player) \<times>
    (Board \<times> int \<times> jsnum \<times> jsnum \<times> Player \<times> Player)) set" where
  "search_rel =
     inv_image (less_than <*lex*> less_than <*lex*> less_than)
       (\<lambda>(b, depth, alpha, beta, rootPlayer, toMove).
          (if toMove = P_empty then 1 else 0 :: nat,
           empties b,
           if ai_getValidMoves b toMove = Inr [] then 1 else 0 :: nat))"

lemma wf_search_rel: "wf search_rel"
  unfolding search_rel_def by (intro wf_inv_image wf_lex_prod wf_less_than)

lemma opponent_not_empty: "opponent p \<noteq> P_empty"
  by (simp add: opponent_def)

lemma search_rel_pass:
  assumes "ai_getValidMoves b toMove = Inr moves" "length moves = 0"
    "ai_getValidMoves b (opponent toMove) = Inr oppMoves" "length oppMoves \<noteq> 0"
  shows "((b, depth, alpha, beta, rootPlayer, opponent toMove),
          (b, depth, alpha, beta, rootPlayer, toMove)) \<in> search_rel"
  using assms by (auto simp: search_rel_def opponent_not_empty)

lemma search_rel_move:
  assumes ms: "ai_getValidMoves b toMove = Inr moves" and m: "m \<in> set moves"
    and ch: "applyMove b (fst m) (snd m) toMove = Inr child"
  shows "((child, d', a, be, rootPlayer, opponent toMove),
          (b, depth, alpha, beta, rootPlayer, toMove)) \<in> search_rel"
proof (cases "toMove = P_empty")
  case True
  then show ?thesis by (simp add: search_rel_def opponent_not_empty)
next
  case False
  from ms m have cell: "m \<in> set (cells (int (length b)))" and v: "ai_valid b toMove m"
    by (auto simp: ai_getValidMoves_eq)
  from v have e: "rd b (fst m) (snd m) = Inr (Some P_empty)" by (simp add: ai_valid_def)
  from cell have "(fst m, snd m) \<in> set (cells (int (length b)))" by simp
  from applyMove_empties[OF ch False this e] False show ?thesis
    by (simp add: search_rel_def opponent_not_empty)
qed

termination minimax
  apply (relation search_rel)
     apply (rule wf_search_rel)
    apply (rule search_rel_pass; assumption)
   apply (rule search_rel_move; assumption)
  apply (rule search_rel_move; assumption)
  done

declare minimax.simps [simp del]

text \<open>The loop of \<^verbatim>\<open>minimaxDecision\<close> over the root's moves.\<close>

fun rootLoop ::
  "('m \<Rightarrow> jsnum \<Rightarrow> jsnum \<Rightarrow> error + jsnum) \<Rightarrow> 'm list \<Rightarrow> jsnum \<Rightarrow> 'm option \<Rightarrow> jsnum \<Rightarrow> jsnum
    \<Rightarrow> error + 'm option" where
  "rootLoop f [] bestScore bestMove alpha beta = Inr bestMove"
| "rootLoop f (m # ms) bestScore bestMove alpha beta =
     (case f m alpha beta of
        Inl e \<Rightarrow> Inl e
      | Inr score \<Rightarrow>
          let bestScore' = (if score > bestScore then score else bestScore);
              bestMove' = (if score > bestScore then Some m else bestMove);
              alpha' = max alpha bestScore'
          in if beta \<le> alpha' then Inr bestMove'
             else rootLoop f ms bestScore' bestMove' alpha' beta)"

definition minimaxDecision :: "Board \<Rightarrow> Player \<Rightarrow> int \<Rightarrow> error + (int \<times> int) option" where
  "minimaxDecision b pl depth =
     (case ai_getValidMoves b pl of
        Inl e \<Rightarrow> Inl e
      | Inr moves \<Rightarrow>
          if length moves = 0 then Inr None
          else
            rootLoop (\<lambda>m a be.
               case applyMove b (fst m) (snd m) pl of
                 Inl e \<Rightarrow> Inl e
               | Inr child \<Rightarrow> minimax child (depth - 1) a be pl (opponent pl))
              moves NegInf None NegInf PosInf)"

subsection \<open>Plain minimax\<close>

text \<open>
  The reference that the search is compared with: \<^verbatim>\<open>minimax\<close> and \<^verbatim>\<open>minimaxDecision\<close>
  with the bounds \<^verbatim>\<open>alpha\<close> and \<^verbatim>\<open>beta\<close> and the three \<^verbatim>\<open>break\<close> statements removed,
  so that every move of every node is searched. The moves are enumerated in the same
  order and the root keeps the first move whose value is strictly greater than all
  values before it.
\<close>

fun maxAll :: "('m \<Rightarrow> error + jsnum) \<Rightarrow> 'm list \<Rightarrow> jsnum \<Rightarrow> error + jsnum" where
  "maxAll g [] val = Inr val"
| "maxAll g (m # ms) val =
     (case g m of Inl e \<Rightarrow> Inl e | Inr x \<Rightarrow> maxAll g ms (max val x))"

fun minAll :: "('m \<Rightarrow> error + jsnum) \<Rightarrow> 'm list \<Rightarrow> jsnum \<Rightarrow> error + jsnum" where
  "minAll g [] val = Inr val"
| "minAll g (m # ms) val =
     (case g m of Inl e \<Rightarrow> Inl e | Inr x \<Rightarrow> minAll g ms (min val x))"

fun rootAll ::
  "('m \<Rightarrow> error + jsnum) \<Rightarrow> 'm list \<Rightarrow> jsnum \<Rightarrow> 'm option \<Rightarrow> error + 'm option" where
  "rootAll g [] bestScore bestMove = Inr bestMove"
| "rootAll g (m # ms) bestScore bestMove =
     (case g m of
        Inl e \<Rightarrow> Inl e
      | Inr score \<Rightarrow>
          rootAll g ms (if score > bestScore then score else bestScore)
            (if score > bestScore then Some m else bestMove))"

lemma maxAll_cong [fundef_cong]:
  "ms = ms' \<Longrightarrow> v = v' \<Longrightarrow> (\<And>m. m \<in> set ms' \<Longrightarrow> f m = g m) \<Longrightarrow>
   maxAll f ms v = maxAll g ms' v'"
  by (induction ms arbitrary: ms' v v') (auto split: sum.splits)

lemma minAll_cong [fundef_cong]:
  "ms = ms' \<Longrightarrow> v = v' \<Longrightarrow> (\<And>m. m \<in> set ms' \<Longrightarrow> f m = g m) \<Longrightarrow>
   minAll f ms v = minAll g ms' v'"
  by (induction ms arbitrary: ms' v v') (auto split: sum.splits)

function plainMinimax :: "Board \<Rightarrow> int \<Rightarrow> Player \<Rightarrow> Player \<Rightarrow> error + jsnum" where
  "plainMinimax b depth rootPlayer toMove =
     (if depth = 0 then leaf b rootPlayer
      else
        case isTerminal b of
          Inl e \<Rightarrow> Inl e
        | Inr terminal \<Rightarrow>
            if terminal then leaf b rootPlayer
            else
              (case ai_getValidMoves b toMove of
                 Inl e \<Rightarrow> Inl e
               | Inr moves \<Rightarrow>
                   if length moves = 0 then
                     (case ai_getValidMoves b (opponent toMove) of
                        Inl e \<Rightarrow> Inl e
                      | Inr oppMoves \<Rightarrow>
                          if length oppMoves = 0 then leaf b rootPlayer
                          else plainMinimax b depth rootPlayer (opponent toMove))
                   else if toMove = rootPlayer then
                     maxAll (\<lambda>m.
                        case applyMove b (fst m) (snd m) toMove of
                          Inl e \<Rightarrow> Inl e
                        | Inr child \<Rightarrow>
                            plainMinimax child (depth - 1) rootPlayer (opponent toMove))
                       moves NegInf
                   else
                     minAll (\<lambda>m.
                        case applyMove b (fst m) (snd m) toMove of
                          Inl e \<Rightarrow> Inl e
                        | Inr child \<Rightarrow>
                            plainMinimax child (depth - 1) rootPlayer (opponent toMove))
                       moves PosInf))"
  by pat_completeness auto

termination plainMinimax
  apply (relation "inv_image search_rel
           (\<lambda>(b, depth, rootPlayer, toMove). (b, depth, NegInf, PosInf, rootPlayer, toMove))")
     apply (rule wf_inv_image, rule wf_search_rel)
    apply (simp only: in_inv_image prod.case, rule search_rel_pass; assumption)
   apply (simp only: in_inv_image prod.case, rule search_rel_move; assumption)
  apply (simp only: in_inv_image prod.case, rule search_rel_move; assumption)
  done

declare plainMinimax.simps [simp del]

definition plainDecision :: "Board \<Rightarrow> Player \<Rightarrow> int \<Rightarrow> error + (int \<times> int) option" where
  "plainDecision b pl depth =
     (case ai_getValidMoves b pl of
        Inl e \<Rightarrow> Inl e
      | Inr moves \<Rightarrow>
          if length moves = 0 then Inr None
          else
            rootAll (\<lambda>m.
               case applyMove b (fst m) (snd m) pl of
                 Inl e \<Rightarrow> Inl e
               | Inr child \<Rightarrow> plainMinimax child (depth - 1) pl (opponent pl))
              moves NegInf None)"

section \<open>The evaluation never throws on a board of two rows or more\<close>

text \<open>What one cell contributes to a weighted tally.\<close>

definition cellw :: "Board \<Rightarrow> Player \<Rightarrow> Player \<Rightarrow> int \<Rightarrow> int \<times> int \<Rightarrow> int" where
  "cellw b rootPl opp w x =
     (if rd b (fst x) (snd x) = Inr (Some rootPl) then w
      else if rd b (fst x) (snd x) = Inr (Some opp) then - w else 0)"

lemma foldE_tally:
  "\<forall>x \<in> set coords. 0 \<le> fst x \<and> fst x < int (length b) \<Longrightarrow>
   foldE (\<lambda>(r, c) acc.
        case rd b r c of
          Inl e \<Rightarrow> Inl e
        | Inr v \<Rightarrow> Inr (if v = Some rootPl then acc + w
                        else if v = Some opp then acc - w else acc))
       coords acc = Inr (acc + sum_list (map (cellw b rootPl opp w) coords))"
proof (induction coords arbitrary: acc)
  case Nil
  then show ?case by simp
next
  case (Cons x coords)
  from Cons.prems obtain v where v: "rd b (fst x) (snd x) = Inr v" by (auto simp: rd_def)
  from Cons.prems have "\<forall>x \<in> set coords. 0 \<le> fst x \<and> fst x < int (length b)" by simp
  note IH = Cons.IH[OF this]
  from v show ?case by (cases x) (simp add: IH cellw_def)
qed

lemma tally_eq:
  "\<forall>x \<in> set coords. 0 \<le> fst x \<and> fst x < int (length b) \<Longrightarrow>
   tally b rootPl opp w coords = Inr (sum_list (map (cellw b rootPl opp w) coords))"
  unfolding tally_def by (simp add: foldE_tally)

definition count_cells :: "Board \<Rightarrow> (Player option \<Rightarrow> bool) \<Rightarrow> (int \<times> int) list \<Rightarrow> int" where
  "count_cells b P xs = int (length (filter (\<lambda>x. \<exists>v. rd b (fst x) (snd x) = Inr v \<and> P v) xs))"

lemma foldE_counts:
  "\<forall>x \<in> set xs. 0 \<le> fst x \<and> fst x < int (length b) \<Longrightarrow>
   foldE (\<lambda>(r, c) (rc, oc, em).
        case rd b r c of
          Inl e \<Rightarrow> Inl e
        | Inr v \<Rightarrow> Inr (if v = Some rootPl then (rc + 1, oc, em)
                        else if v = Some opp then (rc, oc + 1, em)
                        else (rc, oc, em + 1)))
       xs (rc0, oc0, em0) =
   Inr (rc0 + count_cells b (\<lambda>v. v = Some rootPl) xs,
        oc0 + count_cells b (\<lambda>v. v \<noteq> Some rootPl \<and> v = Some opp) xs,
        em0 + count_cells b (\<lambda>v. v \<noteq> Some rootPl \<and> v \<noteq> Some opp) xs)"
proof (induction xs arbitrary: rc0 oc0 em0)
  case Nil
  then show ?case by (simp add: count_cells_def)
next
  case (Cons x xs)
  from Cons.prems obtain v where v: "rd b (fst x) (snd x) = Inr v" by (auto simp: rd_def)
  from Cons.prems have "\<forall>x \<in> set xs. 0 \<le> fst x \<and> fst x < int (length b)" by simp
  note IH = Cons.IH[OF this]
  from v show ?case by (cases x) (simp add: IH count_cells_def)
qed

lemma counts_eq:
  "counts b rootPl opp =
   Inr (count_cells b (\<lambda>v. v = Some rootPl) (cells (int (length b))),
        count_cells b (\<lambda>v. v \<noteq> Some rootPl \<and> v = Some opp) (cells (int (length b))),
        count_cells b (\<lambda>v. v \<noteq> Some rootPl \<and> v \<noteq> Some opp) (cells (int (length b))))"
proof -
  have "\<forall>x \<in> set (cells (int (length b))). 0 \<le> fst x \<and> fst x < int (length b)"
    by (auto simp: set_cells)
  from foldE_counts[OF this, of rootPl opp 0 0 0] show ?thesis
    by (simp add: counts_def)
qed

lemma evaluate_ok:
  assumes "2 \<le> length b"
  shows "\<exists>x. evaluate b rootPl = Inr x"
proof -
  let ?n = "int (length b)"
  have c: "\<forall>x \<in> set [(0, 0), (0, ?n - 1), (?n - 1, 0), (?n - 1, ?n - 1)].
             0 \<le> fst x \<and> fst x < ?n"
    using assms by auto
  have e: "\<forall>x \<in> set (concat (map (\<lambda>i. [(0, i), (?n - 1, i), (i, 0), (i, ?n - 1)]) [1..?n - 2])).
             0 \<le> fst x \<and> fst x < ?n"
    using assms by auto
  have x: "\<forall>x \<in> set [(1, 1), (1, ?n - 2), (?n - 2, 1), (?n - 2, ?n - 2)].
             0 \<le> fst x \<and> fst x < ?n"
    using assms by auto
  show ?thesis
    unfolding evaluate_def Let_def
    by (simp add: counts_eq ai_getValidMoves_eq bindE_def tally_eq[OF c] tally_eq[OF e]
        tally_eq[OF x] del: set_concat)
qed

section \<open>Pruning does not change the decision\<close>

text \<open>
  How a value \<open>u\<close> returned under the bounds \<open>a < b\<close> relates to the true value \<open>v\<close>:
  strictly between the bounds it is exact, at or below \<open>a\<close> it is an upper bound of
  \<open>v\<close>, at or above \<open>b\<close> a lower bound.
\<close>

definition inWindow :: "'a::linorder \<Rightarrow> 'a \<Rightarrow> 'a \<Rightarrow> 'a \<Rightarrow> bool" where
  "inWindow a b v u = ((u \<le> a \<and> v \<le> u) \<or> (a < u \<and> u < b \<and> v = u) \<or> (b \<le> u \<and> u \<le> v))"

lemma inWindow_refl: "inWindow a b v v"
  by (auto simp: inWindow_def)

lemma max_break:
  fixes a :: "'a::linorder"
  assumes "a < b" "val \<le> a" "inWindow a b v x" "b \<le> max a (max val x)"
  shows "inWindow a b (max val (max v V)) (max val x)"
proof -
  from assms(1,2,4) have bx: "b \<le> x" by (auto simp: max_def split: if_splits)
  with assms(1,2) have mx: "max val x = x" by (auto simp: max_def)
  from bx assms(1,3) have "x \<le> v" by (auto simp: inWindow_def)
  then have "x \<le> max val (max v V)" by (simp add: le_max_iff_disj)
  with bx mx show ?thesis by (simp add: inWindow_def)
qed

lemma max_continue:
  fixes a :: "'a::linorder"
  assumes "a < b" "val \<le> a" "inWindow a b v x" "max a (max val x) < b"
    "inWindow (max a (max val x)) b (max (max val x) V) u"
  shows "inWindow a b (max val (max v V)) u"
proof -
  from assms(4) have xb: "x < b" by simp
  from assms(2) have m1: "max a (max val x) = max a x" by (auto simp: max_def)
  consider (lo) "x \<le> a" "v \<le> x" | (mid) "a < x" "v = x"
    using assms(3) xb by (auto simp: inWindow_def)
  then show ?thesis
  proof cases
    case lo
    then have a': "max a x = a" by (simp add: max_def)
    from lo assms(2) have T: "max val (max v V) = max val V \<or> (max val (max v V) \<le> a \<and> max val V \<le> a)" 
      by (auto simp: max_def)
    from lo assms(2) have T': "max (max val x) V = max val V \<or> (max (max val x) V \<le> a \<and> max val V \<le> a \<and> V \<le> x)"
      by (auto simp: max_def)
    from assms(5) a' m1 have w: "inWindow a b (max (max val x) V) u" by simp
    show ?thesis
      using w T T' lo assms(2) by (auto simp: inWindow_def max_def split: if_splits)
  next
    case mid
    then have "max val (max v V) = max (max val x) V" by (simp add: max.assoc)
    moreover from mid have "a \<le> max a (max val x)" by simp
    ultimately show ?thesis using assms(5) assms(4) mid assms(2)
      by (auto simp: inWindow_def max_def split: if_splits)
  qed
qed

lemma min_break:
  fixes a :: "'a::linorder"
  assumes "a < b" "b \<le> val" "inWindow a b v x" "min b (min val x) \<le> a"
  shows "inWindow a b (min val (min v V)) (min val x)"
proof -
  from assms(1,2,4) have xa: "x \<le> a" by (auto simp: min_def split: if_splits)
  with assms(1,2) have mx: "min val x = x" by (auto simp: min_def)
  from xa assms(1,3) have "v \<le> x" by (auto simp: inWindow_def)
  then have "min val (min v V) \<le> x" by (simp add: min_le_iff_disj)
  with xa mx show ?thesis by (simp add: inWindow_def)
qed

lemma min_continue:
  fixes a :: "'a::linorder"
  assumes "a < b" "b \<le> val" "inWindow a b v x" "a < min b (min val x)"
    "inWindow a (min b (min val x)) (min (min val x) V) u"
  shows "inWindow a b (min val (min v V)) u"
proof -
  from assms(4) have ax: "a < x" by simp
  from assms(2) have m1: "min b (min val x) = min b x" by (auto simp: min_def)
  consider (hi) "b \<le> x" "x \<le> v" | (mid) "x < b" "v = x"
    using assms(3) ax by (auto simp: inWindow_def)
  then show ?thesis
  proof cases
    case hi
    then have b': "min b x = b" by (simp add: min_def)
    from assms(5) b' m1 have w: "inWindow a b (min (min val x) V) u" by simp
    show ?thesis
      using w hi assms(2) by (auto simp: inWindow_def min_def split: if_splits)
  next
    case mid
    then have "min val (min v V) = min (min val x) V" by (simp add: min.assoc)
    then show ?thesis using assms(5) assms(4) mid assms(2)
      by (auto simp: inWindow_def min_def split: if_splits)
  qed
qed

lemma NegInf_le [simp]: "NegInf \<le> x"
  by (simp add: less_eq_jsnum_def)

lemma le_PosInf [simp]: "x \<le> PosInf"
  by (simp add: less_eq_jsnum_def split: jsnum.splits)

lemma max_NegInf [simp]: "max NegInf x = x" "max x NegInf = x"
  by (simp_all add: max_def less_eq_jsnum_def split: jsnum.splits)

lemma min_PosInf [simp]: "min PosInf x = x" "min x PosInf = x"
  by (simp_all add: min_def less_eq_jsnum_def split: jsnum.splits)

text \<open>A body \<open>f\<close> with bounds computes, within the window, what \<open>g\<close> computes.\<close>

definition approx ::
  "('m \<Rightarrow> jsnum \<Rightarrow> jsnum \<Rightarrow> error + jsnum) \<Rightarrow> ('m \<Rightarrow> error + jsnum) \<Rightarrow> 'm \<Rightarrow> bool" where
  "approx f g m =
     (\<exists>v. g m = Inr v \<and> (\<forall>a b. a < b \<longrightarrow> (\<exists>u. f m a b = Inr u \<and> inWindow a b v u)))"

lemma maxAll_total:
  "\<forall>m \<in> set ms. \<exists>v. g m = Inr v \<Longrightarrow> \<exists>V. \<forall>w. maxAll g ms w = Inr (max w V)"
proof (induction ms)
  case Nil
  have "\<forall>w. maxAll g [] w = Inr (max w NegInf)" by simp
  then show ?case ..
next
  case (Cons k ks)
  then obtain V y where "\<forall>w. maxAll g ks w = Inr (max w V)" "g k = Inr y" by auto
  then have "\<forall>w. maxAll g (k # ks) w = Inr (max w (max y V))" by (simp add: max.assoc)
  then show ?case ..
qed

lemma minAll_total:
  "\<forall>m \<in> set ms. \<exists>v. g m = Inr v \<Longrightarrow> \<exists>V. \<forall>w. minAll g ms w = Inr (min w V)"
proof (induction ms)
  case Nil
  have "\<forall>w. minAll g [] w = Inr (min w PosInf)" by simp
  then show ?case ..
next
  case (Cons k ks)
  then obtain V y where "\<forall>w. minAll g ks w = Inr (min w V)" "g k = Inr y" by auto
  then have "\<forall>w. minAll g (k # ks) w = Inr (min w (min y V))" by (simp add: min.assoc)
  then show ?case ..
qed

lemma maxLoop_inWindow:
  assumes "\<forall>m \<in> set ms. approx f g m"
  shows "alpha < beta \<Longrightarrow> val \<le> alpha \<Longrightarrow>
         \<exists>V u. (\<forall>w. maxAll g ms w = Inr (max w V)) \<and>
               maxLoop f ms val alpha beta = Inr u \<and> inWindow alpha beta (max val V) u"
  using assms
proof (induction ms arbitrary: val alpha)
  case Nil
  have "\<forall>w. maxAll g [] w = Inr (max w NegInf)" by simp
  moreover have "inWindow alpha beta (max val NegInf) val"
    by (simp add: inWindow_refl)
  ultimately show ?case by (intro exI[of _ NegInf] exI[of _ val]) simp
next
  case (Cons m ms)
  from Cons.prems(3) obtain v where gv: "g m = Inr v"
    and fv: "\<And>a b. a < b \<Longrightarrow> \<exists>u. f m a b = Inr u \<and> inWindow a b v u"
    by (auto simp: approx_def)
  from fv[OF Cons.prems(1)] obtain x where x: "f m alpha beta = Inr x"
    and wx: "inWindow alpha beta v x" by blast
  show ?case
  proof (cases "beta \<le> max alpha (max val x)")
    case True
    from Cons.prems(3) have "\<forall>m \<in> set ms. \<exists>v. g m = Inr v" by (auto simp: approx_def)
    from maxAll_total[OF this] obtain V where V: "\<forall>w. maxAll g ms w = Inr (max w V)" ..
    have 1: "\<forall>w. maxAll g (m # ms) w = Inr (max w (max v V))"
      using gv V by (simp add: max.assoc)
    have 2: "maxLoop f (m # ms) val alpha beta = Inr (max val x)"
      using x True by (simp add: Let_def)
    have 3: "inWindow alpha beta (max val (max v V)) (max val x)"
      by (rule max_break[OF Cons.prems(1,2) wx True])
    from 1 2 3 show ?thesis by blast
  next
    case False
    then have lt: "max alpha (max val x) < beta" by (simp only: not_le)
    have le: "max val x \<le> max alpha (max val x)" by (rule max.cobounded2)
    from Cons.prems(3) have "\<forall>m \<in> set ms. approx f g m" by simp
    from Cons.IH[OF lt le this] obtain V u where V: "\<forall>w. maxAll g ms w = Inr (max w V)"
      and u: "maxLoop f ms (max val x) (max alpha (max val x)) beta = Inr u"
      and wu: "inWindow (max alpha (max val x)) beta (max (max val x) V) u" by blast
    have 1: "\<forall>w. maxAll g (m # ms) w = Inr (max w (max v V))"
      using gv V by (simp add: max.assoc)
    have 2: "maxLoop f (m # ms) val alpha beta = Inr u"
      using x False u by (simp add: Let_def)
    have 3: "inWindow alpha beta (max val (max v V)) u"
      by (rule max_continue[OF Cons.prems(1,2) wx lt wu])
    from 1 2 3 show ?thesis by blast
  qed
qed

lemma minLoop_inWindow:
  assumes "\<forall>m \<in> set ms. approx f g m"
  shows "alpha < beta \<Longrightarrow> beta \<le> val \<Longrightarrow>
         \<exists>V u. (\<forall>w. minAll g ms w = Inr (min w V)) \<and>
               minLoop f ms val alpha beta = Inr u \<and> inWindow alpha beta (min val V) u"
  using assms
proof (induction ms arbitrary: val beta)
  case Nil
  have "\<forall>w. minAll g [] w = Inr (min w PosInf)" by simp
  moreover have "inWindow alpha beta (min val PosInf) val"
    by (simp add: inWindow_refl)
  ultimately show ?case by (intro exI[of _ PosInf] exI[of _ val]) simp
next
  case (Cons m ms)
  from Cons.prems(3) obtain v where gv: "g m = Inr v"
    and fv: "\<And>a b. a < b \<Longrightarrow> \<exists>u. f m a b = Inr u \<and> inWindow a b v u"
    by (auto simp: approx_def)
  from fv[OF Cons.prems(1)] obtain x where x: "f m alpha beta = Inr x"
    and wx: "inWindow alpha beta v x" by blast
  show ?case
  proof (cases "min beta (min val x) \<le> alpha")
    case True
    from Cons.prems(3) have "\<forall>m \<in> set ms. \<exists>v. g m = Inr v" by (auto simp: approx_def)
    from minAll_total[OF this] obtain V where V: "\<forall>w. minAll g ms w = Inr (min w V)" ..
    have 1: "\<forall>w. minAll g (m # ms) w = Inr (min w (min v V))"
      using gv V by (simp add: min.assoc)
    have 2: "minLoop f (m # ms) val alpha beta = Inr (min val x)"
      using x True by (simp add: Let_def)
    have 3: "inWindow alpha beta (min val (min v V)) (min val x)"
      by (rule min_break[OF Cons.prems(1,2) wx True])
    from 1 2 3 show ?thesis by blast
  next
    case False
    then have lt: "alpha < min beta (min val x)" by (simp only: not_le)
    have le: "min beta (min val x) \<le> min val x" by (rule min.cobounded2)
    from Cons.prems(3) have "\<forall>m \<in> set ms. approx f g m" by simp
    from Cons.IH[OF lt le this] obtain V u where V: "\<forall>w. minAll g ms w = Inr (min w V)"
      and u: "minLoop f ms (min val x) alpha (min beta (min val x)) = Inr u"
      and wu: "inWindow alpha (min beta (min val x)) (min (min val x) V) u" by blast
    have 1: "\<forall>w. minAll g (m # ms) w = Inr (min w (min v V))"
      using gv V by (simp add: min.assoc)
    have 2: "minLoop f (m # ms) val alpha beta = Inr u"
      using x False u by (simp add: Let_def)
    have 3: "inWindow alpha beta (min val (min v V)) u"
      by (rule min_continue[OF Cons.prems(1,2) wx lt wu])
    from 1 2 3 show ?thesis by blast
  qed
qed

lemma isTerminal_eq:
  "isTerminal b =
     Inr (filter (ai_valid b P_player) (cells (int (length b))) = [] \<and>
          filter (ai_valid b P_ia) (cells (int (length b))) = [])"
  by (simp add: isTerminal_def ai_getValidMoves_eq)

lemma leaf_ok: "2 \<le> length b \<Longrightarrow> \<exists>x. leaf b rootPlayer = Inr (Num x)"
  using evaluate_ok[of b rootPlayer] by (auto simp: leaf_def)

lemma valid_move_child:
  assumes "ai_getValidMoves b pl = Inr ms" "m \<in> set ms"
  shows "\<exists>child. applyMove b (fst m) (snd m) pl = Inr child \<and> length child = length b"
proof -
  from assms have "m \<in> set (cells (int (length b)))" by (auto simp: ai_getValidMoves_eq)
  then have "0 \<le> fst m" "fst m < int (length b)" by (auto simp: set_cells)
  from applyMove_ok[OF this] obtain child where "applyMove b (fst m) (snd m) pl = Inr child"
    by blast
  with applyMove_rd(1)[OF this] show ?thesis by blast
qed

lemma NegInf_less_PosInf: "NegInf < PosInf"
  by (simp add: less_jsnum_def less_eq_jsnum_def)

lemma approx_children:
  fixes F :: "jsnum \<Rightarrow> jsnum \<Rightarrow> error + jsnum"
  assumes "\<And>x y. x < y \<Longrightarrow> \<exists>v u. p = Inr v \<and> F x y = Inr u \<and> inWindow x y v u"
  shows "\<exists>v. p = Inr v \<and> (\<forall>a b. a < b \<longrightarrow> (\<exists>u. F a b = Inr u \<and> inWindow a b v u))"
proof -
  from assms[OF NegInf_less_PosInf] obtain v where v: "p = Inr v" by blast
  have "\<forall>a b. a < b \<longrightarrow> (\<exists>u. F a b = Inr u \<and> inWindow a b v u)"
  proof (intro allI impI)
    fix a b :: jsnum assume "a < b"
    from assms[OF this] v show "\<exists>u. F a b = Inr u \<and> inWindow a b v u" by auto
  qed
  with v show ?thesis by blast
qed

lemma minimax_inWindow:
  "2 \<le> length b \<Longrightarrow> alpha < beta \<Longrightarrow>
   \<exists>v u. plainMinimax b depth rootPlayer toMove = Inr v \<and>
         minimax b depth alpha beta rootPlayer toMove = Inr u \<and> inWindow alpha beta v u"
proof (induction b depth alpha beta rootPlayer toMove rule: minimax.induct)
  case (1 b depth alpha beta rootPlayer toMove)
  note len = "1.prems"(1) and ab = "1.prems"(2)
  from leaf_ok[OF len] obtain x where lf: "leaf b rootPlayer = Inr (Num x)" by blast
  obtain t where t: "isTerminal b = Inr t" by (simp add: isTerminal_eq)
  obtain ms where ms: "ai_getValidMoves b toMove = Inr ms" by (simp add: ai_getValidMoves_eq)
  obtain oms where oms: "ai_getValidMoves b (opponent toMove) = Inr oms"
    by (simp add: ai_getValidMoves_eq)
  let ?f = "\<lambda>m a be. case applyMove b (fst m) (snd m) toMove of Inl e \<Rightarrow> Inl e
              | Inr child \<Rightarrow> minimax child (depth - 1) a be rootPlayer (opponent toMove)"
  let ?g = "\<lambda>m. case applyMove b (fst m) (snd m) toMove of Inl e \<Rightarrow> Inl e
              | Inr child \<Rightarrow> plainMinimax child (depth - 1) rootPlayer (opponent toMove)"
  consider (leaf) "depth = 0 \<or> t \<or> (length ms = 0 \<and> length oms = 0)"
    | (pass) "depth \<noteq> 0" "\<not> t" "length ms = 0" "length oms \<noteq> 0"
    | (maxi) "depth \<noteq> 0" "\<not> t" "length ms \<noteq> 0" "toMove = rootPlayer"
    | (mini) "depth \<noteq> 0" "\<not> t" "length ms \<noteq> 0" "toMove \<noteq> rootPlayer"
    by blast
  then show ?case
  proof cases
    case leaf
    then have "plainMinimax b depth rootPlayer toMove = Inr (Num x)"
      by (subst plainMinimax.simps) (auto simp: t ms oms lf)
    moreover from leaf have "minimax b depth alpha beta rootPlayer toMove = Inr (Num x)"
      by (subst minimax.simps) (auto simp: t ms oms lf)
    ultimately show ?thesis by (simp add: inWindow_refl)
  next
    case pass
    have "plainMinimax b depth rootPlayer toMove
            = plainMinimax b depth rootPlayer (opponent toMove)"
      by (subst plainMinimax.simps) (use pass in \<open>simp add: t ms oms\<close>)
    moreover have "minimax b depth alpha beta rootPlayer toMove
            = minimax b depth alpha beta rootPlayer (opponent toMove)"
      by (subst minimax.simps) (use pass in \<open>simp add: t ms oms\<close>)
    ultimately show ?thesis
      using "1.IH"(1)[OF pass(1) t pass(2) ms pass(3) oms pass(4) len ab] by simp
  next
    case maxi
    have "\<forall>m \<in> set ms. approx ?f ?g m"
    proof
      fix m assume m: "m \<in> set ms"
      from valid_move_child[OF ms m] obtain child
        where ch: "applyMove b (fst m) (snd m) toMove = Inr child"
          and l: "length child = length b" by blast
      from len l have l2: "2 \<le> length child" by simp
      from approx_children[OF "1.IH"(2)[OF maxi(1) t maxi(2) ms maxi(3,4) m ch l2]]
      show "approx ?f ?g m" unfolding approx_def by (simp add: ch)
    qed
    from maxLoop_inWindow[OF this ab, of NegInf] obtain V u
      where "maxAll ?g ms NegInf = Inr (max NegInf V)"
        and "maxLoop ?f ms NegInf alpha beta = Inr u"
        and "inWindow alpha beta (max NegInf V) u" by auto
    moreover have "plainMinimax b depth rootPlayer toMove = maxAll ?g ms NegInf"
      by (subst plainMinimax.simps) (use t ms maxi in simp)
    moreover have "minimax b depth alpha beta rootPlayer toMove
                     = maxLoop ?f ms NegInf alpha beta"
      by (subst minimax.simps) (use t ms maxi in simp)
    ultimately show ?thesis by simp
  next
    case mini
    have "\<forall>m \<in> set ms. approx ?f ?g m"
    proof
      fix m assume m: "m \<in> set ms"
      from valid_move_child[OF ms m] obtain child
        where ch: "applyMove b (fst m) (snd m) toMove = Inr child"
          and l: "length child = length b" by blast
      from len l have l2: "2 \<le> length child" by simp
      from approx_children[OF "1.IH"(3)[OF mini(1) t mini(2) ms mini(3,4) m ch l2]]
      show "approx ?f ?g m" unfolding approx_def by (simp add: ch)
    qed
    from minLoop_inWindow[OF this ab, of PosInf] obtain V u
      where "minAll ?g ms PosInf = Inr (min PosInf V)"
        and "minLoop ?f ms PosInf alpha beta = Inr u"
        and "inWindow alpha beta (min PosInf V) u" by auto
    moreover have "plainMinimax b depth rootPlayer toMove = minAll ?g ms PosInf"
      by (subst plainMinimax.simps) (use t ms mini in simp)
    moreover have "minimax b depth alpha beta rootPlayer toMove
                     = minLoop ?f ms PosInf alpha beta"
      by (subst minimax.simps) (use t ms mini in simp)
    ultimately show ?thesis by simp
  qed
qed

lemma rootAll_top:
  "\<forall>m \<in> set ms. \<exists>v. g m = Inr v \<Longrightarrow> rootAll g ms PosInf bm = Inr bm"
proof (induction ms)
  case Nil
  then show ?case by simp
next
  case (Cons m ms)
  then obtain v where v: "g m = Inr v" by auto
  have "\<not> PosInf < v" by (simp add: not_less)
  with Cons v show ?case by simp
qed

lemma rootLoop_eq:
  assumes "\<forall>m \<in> set ms. approx f g m"
  shows "s < PosInf \<Longrightarrow> rootLoop f ms s bm s PosInf = rootAll g ms s bm"
  using assms
proof (induction ms arbitrary: s bm)
  case Nil
  then show ?case by simp
next
  case (Cons m ms)
  from Cons.prems(2) obtain v where gv: "g m = Inr v"
    and fv: "\<And>a b. a < b \<Longrightarrow> \<exists>u. f m a b = Inr u \<and> inWindow a b v u"
    by (auto simp: approx_def)
  from fv[OF Cons.prems(1)] obtain x where x: "f m s PosInf = Inr x"
    and wx: "inWindow s PosInf v x" by blast
  from Cons.prems(2) have rest: "\<forall>m \<in> set ms. approx f g m" by simp
  consider (lo) "x \<le> s" "v \<le> x" | (mid) "s < x" "x < PosInf" "v = x"
    | (hi) "PosInf \<le> x" "x \<le> v"
    using wx by (auto simp: inWindow_def)
  then show ?case
  proof cases
    case lo
    then have nx: "\<not> s < x" and nv: "\<not> s < v" by auto
    from Cons.prems(1) have nb: "\<not> PosInf \<le> s" by simp
    from Cons.IH[OF Cons.prems(1) rest, of bm] show ?thesis
      by (simp add: x gv nx nv nb Let_def)
  next
    case mid
    then have m1: "max s x = x" by (simp add: max.absorb2 less_imp_le)
    from mid have nb: "\<not> PosInf \<le> x" by simp
    from Cons.IH[OF mid(2) rest, of "Some m"] show ?thesis
      by (simp add: x gv mid m1 nb Let_def)
  next
    case hi
    then have xe: "x = PosInf" and ve: "v = PosInf" by (auto simp: antisym)
    from rest have "\<forall>m \<in> set ms. \<exists>v. g m = Inr v" by (auto simp: approx_def)
    from rootAll_top[OF this, of "Some m"] Cons.prems(1) show ?thesis
      by (simp add: x gv xe ve Let_def)
  qed
qed

lemma valid_move_size:
  assumes v: "ai_valid b pl m" and c: "m \<in> set (cells (int (length b)))"
  shows "2 \<le> length b"
proof -
  from v obtain fl where e: "rd b (fst m) (snd m) = Inr (Some P_empty)"
    and fl: "ai_getFlippableDiscs b (fst m) (snd m) pl = Inr fl" and ne: "fl \<noteq> []"
    by (auto simp: ai_valid_def)
  from ne obtain x where x: "x \<in> set fl" by (cases fl) auto
  from ai_getFlippableDiscs_set[OF fl x] e have "x \<noteq> m"
    by (auto simp: opponent_not_empty)
  moreover from ai_getFlippableDiscs_set[OF fl x] c
  have "0 \<le> fst x" "fst x < int (length b)" "0 \<le> snd x" "snd x < int (length b)"
    "0 \<le> fst m" "fst m < int (length b)" "0 \<le> snd m" "snd m < int (length b)"
    by (auto simp: set_cells)
  ultimately show ?thesis by (cases x; cases m) auto
qed

lemma root_children:
  assumes ms: "ai_getValidMoves b pl = Inr ms" and ne: "ms \<noteq> []" and m: "m \<in> set ms"
  shows "approx
     (\<lambda>m a be. case applyMove b (fst m) (snd m) pl of Inl e \<Rightarrow> Inl e
         | Inr child \<Rightarrow> minimax child (depth - 1) a be pl (opponent pl))
     (\<lambda>m. case applyMove b (fst m) (snd m) pl of Inl e \<Rightarrow> Inl e
         | Inr child \<Rightarrow> plainMinimax child (depth - 1) pl (opponent pl)) m"
proof -
  from ms m have "ai_valid b pl m" "m \<in> set (cells (int (length b)))"
    by (auto simp: ai_getValidMoves_eq)
  then have len: "2 \<le> length b" by (rule valid_move_size)
  from valid_move_child[OF ms m] obtain child
    where ch: "applyMove b (fst m) (snd m) pl = Inr child"
      and l: "length child = length b" by blast
  from len l have l2: "2 \<le> length child" by simp
  from approx_children[OF minimax_inWindow[OF l2]]
  show ?thesis unfolding approx_def by (simp add: ch)
qed

text \<open>
  C2. For every board, root side and depth, the move that the alpha-beta search
  \<open>minimaxDecision\<close> chooses (or the exception it raises) is the one that plain minimax
  chooses, enumerating the moves in the same order with the same strictly-greater,
  first-seen tie-break: pruning never changes the chosen move.
\<close>

theorem alphabeta_decision_eq_plain:
  "minimaxDecision b pl depth = plainDecision b pl depth"
proof -
  obtain ms where ms: "ai_getValidMoves b pl = Inr ms" by (simp add: ai_getValidMoves_eq)
  show ?thesis
  proof (cases "ms = []")
    case True
    with ms show ?thesis by (simp add: minimaxDecision_def plainDecision_def)
  next
    case False
    have "\<forall>m \<in> set ms. approx
       (\<lambda>m a be. case applyMove b (fst m) (snd m) pl of Inl e \<Rightarrow> Inl e
           | Inr child \<Rightarrow> minimax child (depth - 1) a be pl (opponent pl))
       (\<lambda>m. case applyMove b (fst m) (snd m) pl of Inl e \<Rightarrow> Inl e
           | Inr child \<Rightarrow> plainMinimax child (depth - 1) pl (opponent pl)) m"
      using root_children[OF ms False] by blast
    from rootLoop_eq[OF this NegInf_less_PosInf, of None] ms False show ?thesis
      by (simp add: minimaxDecision_def plainDecision_def)
  qed
qed

section \<open>Properties of the game logic service\<close>

text \<open>The invariant that \<^verbatim>\<open>initBoard\<close> establishes: the field \<^verbatim>\<open>size\<close> is the number of
  rows of the board, so that every row \<^verbatim>\<open>inBounds\<close> admits exists.\<close>

definition rows_present :: "GameLogicService \<Rightarrow> bool" where
  "rows_present s = (bsize s = int (length (board s)))"

text \<open>A cell holds a disc.\<close>

definition occupied :: "Board \<Rightarrow> int \<Rightarrow> int \<Rightarrow> bool" where
  "occupied b r c = (rd b r c = Inr (Some P_player) \<or> rd b r c = Inr (Some P_ia))"

definition occupied_count :: "GameLogicService \<Rightarrow> nat" where
  "occupied_count s =
     length (filter (\<lambda>x. occupied (board s) (fst x) (snd x)) (cells (bsize s)))"

lemma getFlippableDiscs_ok:
  "rows_present s \<Longrightarrow> \<exists>fl. getFlippableDiscs s row col pl = Inr fl"
  unfolding getFlippableDiscs_def
  by (rule collect_ok) (auto simp: rows_present_def intro: walk_ok)

lemma getFlippableDiscs_set:
  assumes "getFlippableDiscs s row col pl = Inr fl" "x \<in> set fl"
  shows "inBounds s (fst x) (snd x) \<and> rd (board s) (fst x) (snd x) = Inr (Some (opponent pl))"
  using assms
  by (auto simp: getFlippableDiscs_def inBounds_def dest!: collect_set dest: walk_set)

lemma isValidMove_eq:
  assumes "rows_present s" "0 \<le> row" "row < bsize s"
  shows "isValidMove s row col pl =
           Inr (rd (board s) row col = Inr (Some P_empty) \<and>
                getFlippableDiscs s row col pl \<noteq> Inr [])"
proof -
  from assms obtain v where v: "rd (board s) row col = Inr v"
    by (auto simp: rd_def rows_present_def)
  from getFlippableDiscs_ok[OF assms(1)] obtain fl
    where "getFlippableDiscs s row col pl = Inr fl" by blast
  with v show ?thesis by (auto simp: isValidMove_def)
qed

lemma isValidMove_throws:
  assumes "rows_present s" "\<not> (0 \<le> row \<and> row < bsize s)"
  shows "isValidMove s row col pl = Inl TypeError"
  using assms by (auto simp: isValidMove_def rd_def rows_present_def)

lemma getValidMoves_eq:
  assumes "rows_present s"
  shows "getValidMoves s pl =
     Inr (filter (\<lambda>m. rd (board s) (fst m) (snd m) = Inr (Some P_empty) \<and>
                       getFlippableDiscs s (fst m) (snd m) pl \<noteq> Inr [])
            (cells (bsize s)))"
proof -
  let ?f = "\<lambda>(r, c). isValidMove s r c pl"
  have ok: "\<forall>x \<in> set (cells (bsize s)). \<exists>t. ?f x = Inr t"
    using isValidMove_eq[OF assms] by (auto simp: set_cells)
  from filterE_ok[OF ok] obtain ys where ys: "filterE ?f (cells (bsize s)) = Inr ys" ..
  have "ys = filter (\<lambda>x. ?f x = Inr True) (cells (bsize s))"
    by (rule filterE_Inr[OF ys])
  also have "\<dots> = filter (\<lambda>m. rd (board s) (fst m) (snd m) = Inr (Some P_empty) \<and>
                       getFlippableDiscs s (fst m) (snd m) pl \<noteq> Inr []) (cells (bsize s))"
    by (rule filter_cong) (auto simp: set_cells isValidMove_eq[OF assms])
  finally show ?thesis using ys by (simp add: getValidMoves_def)
qed

lemma flipLoop_ok:
  "\<forall>f \<in> set fl. 0 \<le> fst f \<and> fst f < int (length b) \<Longrightarrow>
     \<exists>b'. flipLoop b fl to = (Inr (), b') \<and> length b' = length b \<and>
       (\<forall>r c. rd b' r c = (if (r, c) \<in> set fl then Inr (Some to) else rd b r c))"
proof (induction fl arbitrary: b)
  case Nil
  then show ?case by simp
next
  case (Cons f fl)
  then obtain b1 where b1: "wr b (fst f) (snd f) to = Inr b1"
    by (auto simp: wr_def)
  from length_wr[OF b1] Cons.prems have "\<forall>f \<in> set fl. 0 \<le> fst f \<and> fst f < int (length b1)"
    by simp
  from Cons.IH[OF this] obtain b' where "flipLoop b1 fl to = (Inr (), b')"
    "length b' = length b1"
    "\<forall>r c. rd b' r c = (if (r, c) \<in> set fl then Inr (Some to) else rd b1 r c)" by blast
  with b1 length_wr[OF b1] rd_wr[OF b1] show ?case by (cases f) auto
qed

text \<open>What a successful \<^verbatim>\<open>playMove\<close> does, cell by cell.\<close>

lemma playMove_success:
  assumes rp: "rows_present s" and row: "0 \<le> row" "row < bsize s"
    and e: "rd (board s) row col = Inr (Some P_empty)"
    and fl: "getFlippableDiscs s row col (currentPlayer s) = Inr fl" and ne: "fl \<noteq> []"
  shows "\<exists>s'. playMove row col s = (Inr True, s') \<and>
           bsize s' = bsize s \<and> length (board s') = length (board s) \<and>
           currentPlayer s' = opponent (currentPlayer s) \<and>
           (\<forall>r c. rd (board s') r c =
              (if (r, c) = (row, col) \<or> (r, c) \<in> set fl then Inr (Some (currentPlayer s))
               else rd (board s) r c))"
proof -
  have v: "isValidMove s row col (currentPlayer s) = Inr True"
    using isValidMove_eq[OF rp row] e fl ne by simp
  have "\<forall>f \<in> set fl. 0 \<le> fst f \<and> fst f < int (length (board s))"
    using getFlippableDiscs_set[OF fl] rp by (auto simp: inBounds_def rows_present_def)
  from flipLoop_ok[OF this, of "currentPlayer s"] obtain b1
    where b1: "flipLoop (board s) fl (currentPlayer s) = (Inr (), b1)"
      and l1: "length b1 = length (board s)"
      and r1: "\<forall>r c. rd b1 r c =
                 (if (r, c) \<in> set fl then Inr (Some (currentPlayer s)) else rd (board s) r c)"
    by blast
  from row rp l1 obtain b2 where b2: "wr b1 row col (currentPlayer s) = Inr b2"
    by (auto simp: wr_def rows_present_def)
  from v fl b1 b2 length_wr[OF b2] l1 rd_wr[OF b2] r1 show ?thesis
    by (auto simp: playMove_def Let_def opponent_def)
qed

subsection \<open>A concrete service\<close>

text \<open>The service as its field initialisers leave it, before the constructor calls
  \<^verbatim>\<open>initBoard\<close>.\<close>

definition fresh_service :: GameLogicService where
  "fresh_service = \<lparr>board = [], bsize = 8, currentPlayer = P_player, lastFlipped = []\<rparr>"

definition mk_row :: "Player list \<Rightarrow> Row" where
  "mk_row xs = \<lparr>elems = map Some xs, props = []\<rparr>"

text \<open>The start position on a board of side 4.\<close>

definition board4 :: Board where
  "board4 =
     [mk_row [P_empty, P_empty, P_empty, P_empty],
      mk_row [P_empty, P_player, P_ia, P_empty],
      mk_row [P_empty, P_ia, P_player, P_empty],
      mk_row [P_empty, P_empty, P_empty, P_empty]]"

definition service4 :: GameLogicService where
  "service4 = \<lparr>board = board4, bsize = 4, currentPlayer = P_player, lastFlipped = []\<rparr>"

lemma init4: "initBoard 4 fresh_service = (Inr (), service4)"
  by (simp add: initBoard_def fresh_service_def service4_def board4_def mk_row_def wr_def
      row_set_def is_index_def empty_row_def Let_def eval_nat_numeral)

lemma moves4: "getValidMoves service4 P_player = Inr [(0, 2), (1, 3), (2, 0), (3, 1)]"
  by code_simp

subsection \<open>Legal moves and their application\<close>

lemma rows_present_service4: "rows_present service4"
  by (simp add: rows_present_def service4_def board4_def)

text \<open>A service whose board is a full grid: \<^verbatim>\<open>size\<close> rows of \<^verbatim>\<open>size\<close> cells each and
  nothing else.\<close>

definition grid :: "GameLogicService \<Rightarrow> bool" where
  "grid s =
     (bsize s = int (length (board s)) \<and>
      (\<forall>rw \<in> set (board s). int (length (elems rw)) = bsize s \<and> props rw = []))"

lemma grid_rows_present: "grid s \<Longrightarrow> rows_present s"
  by (simp add: grid_def rows_present_def)

lemma grid_off_board:
  assumes "grid s" "0 \<le> row" "row < bsize s" "\<not> (0 \<le> col \<and> col < bsize s)"
  shows "rd (board s) row col = Inr None"
proof -
  from assms(1-3) have "board s ! nat row \<in> set (board s)" by (simp add: grid_def)
  with assms show ?thesis by (auto simp: grid_def rd_def row_get_def is_index_def)
qed

lemma grid_service4: "grid service4"
  by (simp add: grid_def service4_def board4_def mk_row_def)

text \<open>
  C1. In a service whose \<^verbatim>\<open>size\<close> is the number of rows of its board, for every side:
  \<^verbatim>\<open>getValidMoves\<close> returns normally, every move it returns is an empty cell whose
  capture set \<^verbatim>\<open>getFlippableDiscs\<close> is non-empty, and when the side is the current
  player, \<^verbatim>\<open>playMove\<close> on that move returns true.
\<close>

theorem valid_moves_capture_and_play:
  assumes "rows_present s"
  shows "\<exists>ms. getValidMoves s pl = Inr ms \<and>
           (\<forall>m \<in> set ms.
              rd (board s) (fst m) (snd m) = Inr (Some P_empty) \<and>
              (\<exists>fl. getFlippableDiscs s (fst m) (snd m) pl = Inr fl \<and> fl \<noteq> []) \<and>
              (pl = currentPlayer s \<longrightarrow> fst (playMove (fst m) (snd m) s) = Inr True))"
proof -
  let ?ms = "filter (\<lambda>m. rd (board s) (fst m) (snd m) = Inr (Some P_empty) \<and>
                       getFlippableDiscs s (fst m) (snd m) pl \<noteq> Inr []) (cells (bsize s))"
  have "\<forall>m \<in> set ?ms.
              rd (board s) (fst m) (snd m) = Inr (Some P_empty) \<and>
              (\<exists>fl. getFlippableDiscs s (fst m) (snd m) pl = Inr fl \<and> fl \<noteq> []) \<and>
              (pl = currentPlayer s \<longrightarrow> fst (playMove (fst m) (snd m) s) = Inr True)"
  proof
    fix m assume "m \<in> set ?ms"
    then have row: "0 \<le> fst m" "fst m < bsize s"
      and e: "rd (board s) (fst m) (snd m) = Inr (Some P_empty)"
      and ne: "getFlippableDiscs s (fst m) (snd m) pl \<noteq> Inr []"
      by (auto simp: set_cells)
    from getFlippableDiscs_ok[OF assms] obtain fl
      where fl: "getFlippableDiscs s (fst m) (snd m) pl = Inr fl" by blast
    with ne have ne': "fl \<noteq> []" by auto
    have "pl = currentPlayer s \<longrightarrow> fst (playMove (fst m) (snd m) s) = Inr True"
    proof
      assume pl: "pl = currentPlayer s"
      from playMove_success[OF assms row e fl[unfolded pl] ne']
      show "fst (playMove (fst m) (snd m) s) = Inr True" by auto
    qed
    with e fl ne'
    show "rd (board s) (fst m) (snd m) = Inr (Some P_empty) \<and>
              (\<exists>fl. getFlippableDiscs s (fst m) (snd m) pl = Inr fl \<and> fl \<noteq> []) \<and>
              (pl = currentPlayer s \<longrightarrow> fst (playMove (fst m) (snd m) s) = Inr True)"
      by blast
  qed
  with getValidMoves_eq[OF assms, of pl] show ?thesis by blast
qed

theorem valid_moves_capture_and_play_witness:
  "rows_present service4 \<and> getValidMoves service4 P_player = Inr [(0, 2), (1, 3), (2, 0), (3, 1)]
   \<and> rd (board service4) 0 2 = Inr (Some P_empty)
   \<and> fst (playMove 0 2 service4) = Inr True"
proof -
  from valid_moves_capture_and_play[OF rows_present_service4, of P_player]
  have "rd (board service4) 0 2 = Inr (Some P_empty) \<and>
        fst (playMove 0 2 service4) = Inr True"
    by (simp add: moves4) (simp add: service4_def)
  with rows_present_service4 moves4 show ?thesis by simp
qed

text \<open>
  C5. In a service whose \<^verbatim>\<open>size\<close> is the number of rows of its board, for a
  coordinate on the board: if the target cell holds a disc, or the capture set of the
  move for the current player is empty, \<^verbatim>\<open>playMove\<close> returns false and the service
  afterwards is the service before (the board, every cell of it, the current player).
\<close>

theorem playMove_failure_atomic:
  assumes "rows_present s" "inBounds s row col"
    and "occupied (board s) row col \<or>
         getFlippableDiscs s row col (currentPlayer s) = Inr []"
  shows "playMove row col s = (Inr False, s)"
proof -
  from assms(2) have row: "0 \<le> row" "row < bsize s" by (auto simp: inBounds_def)
  from assms(3) have "isValidMove s row col (currentPlayer s) = Inr False"
    unfolding isValidMove_eq[OF assms(1) row] by (auto simp: occupied_def)
  then show ?thesis by (simp add: playMove_def)
qed

theorem playMove_failure_atomic_witness:
  "rows_present service4 \<and> inBounds service4 1 1 \<and> occupied (board service4) 1 1
   \<and> playMove 1 1 service4 = (Inr False, service4)"
proof -
  have i: "inBounds service4 1 1" by (simp add: inBounds_def service4_def)
  have o: "occupied (board service4) 1 1"
    by (simp add: occupied_def service4_def board4_def rd_def row_get_def is_index_def
        mk_row_def)
  from playMove_failure_atomic[OF rows_present_service4 i disjI1[OF o]]
    rows_present_service4 i o show ?thesis by simp
qed

lemma length_filter_insert:
  "distinct xs \<Longrightarrow> x \<in> set xs \<Longrightarrow> \<not> P x \<Longrightarrow> Q x \<Longrightarrow> (\<And>y. y \<in> set xs \<Longrightarrow> y \<noteq> x \<Longrightarrow> Q y = P y) \<Longrightarrow>
     length (filter Q xs) = length (filter P xs) + 1"
proof (induction xs)
  case Nil
  then show ?case by simp
next
  case (Cons a xs)
  show ?case
  proof (cases "a = x")
    case True
    with Cons.prems have "x \<notin> set xs" by simp
    with Cons.prems(5) have "filter Q xs = filter P xs"
      by (intro filter_cong) auto
    with True Cons.prems(3,4) show ?thesis by simp
  next
    case False
    with Cons.prems have "length (filter Q xs) = length (filter P xs) + 1"
      by (intro Cons.IH) auto
    with False Cons.prems(5)[of a] show ?thesis by auto
  qed
qed

text \<open>
  C10. On a full grid whose current player is one of the two sides, whenever
  \<^verbatim>\<open>playMove\<close> returns true: the coordinate is on the board, the number of cells of
  the board that hold a disc has grown by exactly one, every cell that held a disc still
  holds one, and the current player is the opponent of the player who moved.
\<close>

theorem playMove_success_effect:
  assumes g: "grid s" and cp: "currentPlayer s \<noteq> P_empty"
    and pm: "playMove row col s = (Inr True, s')"
  shows "inBounds s row col \<and>
         occupied_count s' = occupied_count s + 1 \<and>
         (\<forall>r c. occupied (board s) r c \<longrightarrow> occupied (board s') r c) \<and>
         currentPlayer s' = opponent (currentPlayer s)"
proof -
  note rp = grid_rows_present[OF g]
  from pm have v: "isValidMove s row col (currentPlayer s) = Inr True"
    by (auto simp: playMove_def split: sum.splits if_splits)
  then have row: "0 \<le> row" "row < bsize s"
    using isValidMove_throws[OF rp, of row col "currentPlayer s"] by auto
  from getFlippableDiscs_ok[OF rp] obtain fl
    where fl: "getFlippableDiscs s row col (currentPlayer s) = Inr fl" by blast
  from v fl have e: "rd (board s) row col = Inr (Some P_empty)" and ne: "fl \<noteq> []"
    unfolding isValidMove_eq[OF rp row] by auto
  from e grid_off_board[OF g row, of col] row have ib: "inBounds s row col"
    by (auto simp: inBounds_def)
  from playMove_success[OF rp row e fl ne] pm
  have bs: "bsize s' = bsize s" and cur: "currentPlayer s' = opponent (currentPlayer s)"
    and rds: "\<And>r c. rd (board s') r c =
              (if (r, c) = (row, col) \<or> (r, c) \<in> set fl then Inr (Some (currentPlayer s))
               else rd (board s) r c)"
    by auto
  have flocc: "\<And>r c. (r, c) \<in> set fl \<Longrightarrow> occupied (board s) r c"
    using getFlippableDiscs_set[OF fl] by (fastforce simp: occupied_def opponent_def)
  have cpo: "currentPlayer s = P_player \<or> currentPlayer s = P_ia"
    using cp by (cases "currentPlayer s") auto
  have keep: "\<forall>r c. occupied (board s) r c \<longrightarrow> occupied (board s') r c"
    using cpo by (auto simp: occupied_def rds)
  have "length (filter (\<lambda>x. occupied (board s') (fst x) (snd x)) (cells (bsize s)))
        = length (filter (\<lambda>x. occupied (board s) (fst x) (snd x)) (cells (bsize s))) + 1"
  proof (rule length_filter_insert[where x = "(row, col)"])
    show "distinct (cells (bsize s))" by (rule distinct_cells)
    show "(row, col) \<in> set (cells (bsize s))" using ib by (simp add: set_cells inBounds_def)
    show "\<not> occupied (board s) (fst (row, col)) (snd (row, col))"
      using e by (simp add: occupied_def)
    show "occupied (board s') (fst (row, col)) (snd (row, col))"
      using cpo by (auto simp: occupied_def rds)
  next
    fix y :: "int \<times> int" assume "y \<noteq> (row, col)"
    then show "occupied (board s') (fst y) (snd y) = occupied (board s) (fst y) (snd y)"
      using flocc[of "fst y" "snd y"] cpo keep
      by (cases y) (auto simp: occupied_def rds)
  qed
  with ib bs keep cur show ?thesis by (simp add: occupied_count_def)
qed

theorem playMove_success_effect_witness:
  "grid service4 \<and> currentPlayer service4 \<noteq> P_empty \<and>
   fst (playMove 0 2 service4) = Inr True \<and>
   occupied_count (snd (playMove 0 2 service4)) = occupied_count service4 + 1 \<and>
   currentPlayer (snd (playMove 0 2 service4)) = opponent (currentPlayer service4)"
proof -
  have c: "currentPlayer service4 \<noteq> P_empty" by (simp add: service4_def)
  have t: "fst (playMove 0 2 service4) = Inr True" by code_simp
  then have p: "playMove 0 2 service4 = (Inr True, snd (playMove 0 2 service4))"
    by (cases "playMove 0 2 service4") simp
  from playMove_success_effect[OF grid_service4 c p] grid_service4 c t show ?thesis by simp
qed

subsection \<open>Coordinates off the board, sizes that are not a board's\<close>

text \<open>
  C9, as the code has it. There is no bounds check and no OutOfBounds error. On a full
  grid, a coordinate whose row is outside \<open>[0, N)\<close> makes \<^verbatim>\<open>isValidMove\<close> and \<^verbatim>\<open>playMove\<close>
  raise the runtime's \<^verbatim>\<open>TypeError\<close>; a coordinate whose row is inside and whose column is
  outside makes both return false without raising. The service is unchanged either way.
\<close>

theorem off_board_coordinate:
  assumes "grid s" "\<not> inBounds s row col"
  shows "if 0 \<le> row \<and> row < bsize s
         then isValidMove s row col pl = Inr False \<and> playMove row col s = (Inr False, s)
         else isValidMove s row col pl = Inl TypeError \<and> playMove row col s = (Inl TypeError, s)"
proof (cases "0 \<le> row \<and> row < bsize s")
  case True
  with assms(2) have "\<not> (0 \<le> col \<and> col < bsize s)" by (auto simp: inBounds_def)
  with grid_off_board[OF assms(1)] True have "rd (board s) row col = Inr None" by simp
  then have "\<And>p. isValidMove s row col p = Inr False" by (simp add: isValidMove_def)
  with True show ?thesis by (simp add: playMove_def)
next
  case False
  from isValidMove_throws[OF grid_rows_present[OF assms(1)] False]
  have "\<And>p. isValidMove s row col p = Inl TypeError" by simp
  with False show ?thesis by (simp add: playMove_def)
qed

theorem off_board_coordinate_witness:
  "grid service4 \<and> \<not> inBounds service4 1 4 \<and> \<not> inBounds service4 (- 1) 2 \<and>
   isValidMove service4 1 4 P_player = Inr False \<and>
   playMove 1 4 service4 = (Inr False, service4) \<and>
   isValidMove service4 (- 1) 2 P_player = Inl TypeError \<and>
   playMove (- 1) 2 service4 = (Inl TypeError, service4)"
proof -
  have a: "\<not> inBounds service4 1 4" and b: "\<not> inBounds service4 (- 1) 2"
    by (simp_all add: inBounds_def service4_def)
  from off_board_coordinate[OF grid_service4 a, of P_player]
    off_board_coordinate[OF grid_service4 b, of P_player] grid_service4 a b
  show ?thesis by (simp add: service4_def)
qed

text \<open>C9 as stated fails: the column \<open>- 1\<close> is outside \<open>[0, 4)\<close>, and both functions
  return false; no error is signalled.\<close>

theorem off_board_no_error_counterexample:
  "isValidMove service4 1 (- 1) P_player = Inr False \<and>
   playMove 1 (- 1) service4 = (Inr False, service4)"
  by (simp add: isValidMove_def playMove_def service4_def board4_def mk_row_def rd_def
      row_get_def is_index_def)

text \<open>
  C8, as the code has it. \<^verbatim>\<open>initBoard\<close> validates nothing and there is no
  ConfigurationError. Of the invalid sizes (odd, less than 4, or non-positive), size 2
  raises nothing: the call returns with the board of side 2. Every other invalid size
  makes the runtime raise an exception, but not before the service is touched: below
  \<open>2^32\<close> it is a \<^verbatim>\<open>TypeError\<close>, raised after the size and a board of that many
  all-empty rows (none for a non-positive size) were assigned; from \<open>2^32\<close> on it is a
  \<^verbatim>\<open>RangeError\<close>, raised after the size was assigned. The current player and the
  flipped pawns are as before in both cases.
\<close>

theorem initBoard_invalid_size:
  assumes "odd sz \<or> sz < 4 \<or> sz \<le> 0"
  shows "initBoard sz s =
     (if sz = 2 then
        (Inr (),
         s\<lparr>board := [mk_row [P_player, P_ia], mk_row [P_ia, P_player]], bsize := 2,
           currentPlayer := P_player, lastFlipped := []\<rparr>)
      else if sz < 4294967296 then
        (Inl TypeError, s\<lparr>board := replicate (nat sz) (empty_row (nat sz)), bsize := sz\<rparr>)
      else (Inl RangeError, s\<lparr>bsize := sz\<rparr>))"
proof -
  consider (two) "sz = 2" | (big) "4294967296 \<le> sz" | (odd) "sz < 4294967296" "odd sz"
    | (low) "sz \<le> 0" "even sz"
    using assms by fastforce
  then show ?thesis
  proof cases
    case two
    then show ?thesis
      by (simp add: initBoard_def Let_def wr_def row_set_def is_index_def empty_row_def
          mk_row_def eval_nat_numeral)
  next
    case big
    then show ?thesis by (simp add: initBoard_def Let_def)
  next
    case odd
    then have "sz \<noteq> 2" by auto
    with odd show ?thesis by (simp add: initBoard_def Let_def)
  next
    case low
    then have "\<not> 0 \<le> sz div 2 - 1" by auto
    with low show ?thesis by (simp add: initBoard_def Let_def wr_def)
  qed
qed

theorem initBoard_invalid_size_witness:
  "(3::int) < 4 \<and>
   initBoard 3 fresh_service =
     (Inl TypeError, fresh_service\<lparr>board := replicate (nat 3) (empty_row (nat 3)), bsize := 3\<rparr>) \<and>
   initBoard 2 fresh_service =
     (Inr (),
      fresh_service\<lparr>board := [mk_row [P_player, P_ia], mk_row [P_ia, P_player]], bsize := 2,
        currentPlayer := P_player, lastFlipped := []\<rparr>) \<and>
   initBoard (- 2) fresh_service = (Inl TypeError, fresh_service\<lparr>board := [], bsize := - 2\<rparr>) \<and>
   initBoard 4294967297 fresh_service = (Inl RangeError, fresh_service\<lparr>bsize := 4294967297\<rparr>)"
  using initBoard_invalid_size[of 3 fresh_service] initBoard_invalid_size[of 2 fresh_service]
    initBoard_invalid_size[of "- 2" fresh_service]
    initBoard_invalid_size[of 4294967297 fresh_service]
  by simp

text \<open>C8 as stated fails: size 2 is below 4 and no error is signalled; size 3 is odd,
  and when the exception is raised the service already has size 3 and a board of three
  rows, where it had size 8 and no row.\<close>

theorem initBoard_no_validation_counterexample:
  "fst (initBoard 2 fresh_service) = Inr () \<and>
   fst (initBoard 3 fresh_service) = Inl TypeError \<and>
   bsize fresh_service = 8 \<and> length (board fresh_service) = 0 \<and>
   bsize (snd (initBoard 3 fresh_service)) = 3 \<and>
   length (board (snd (initBoard 3 fresh_service))) = 3"
  by (simp add: initBoard_def fresh_service_def Let_def wr_def empty_row_def
      eval_nat_numeral)

subsection \<open>The invariants are those of a running game\<close>

text \<open>Every row has \<open>n\<close> cells, none of them a hole, and no other property.\<close>

definition rows_ok :: "int \<Rightarrow> Board \<Rightarrow> bool" where
  "rows_ok n b =
     (\<forall>rw \<in> set b. int (length (elems rw)) = n \<and> None \<notin> set (elems rw) \<and>
                     props rw = [])"

lemma wr_rows_ok:
  assumes "rows_ok n b" "wr b r c v = Inr b'" "0 \<le> c" "c < n" "n \<le> 4294967295"
  shows "rows_ok n b'"
proof -
  from assms(2) have r: "0 \<le> r" "r < int (length b)"
    and b': "b' = b[nat r := row_set (b ! nat r) c v]"
    by (auto simp: wr_def split: if_splits)
  from r have mem: "b ! nat r \<in> set b" by simp
  with assms(1) have old: "int (length (elems (b ! nat r))) = n"
    "None \<notin> set (elems (b ! nat r))" "props (b ! nat r) = []"
    by (auto simp: rows_ok_def)
  from old assms(3,4,5) have new: "int (length (elems (row_set (b ! nat r) c v))) = n"
    "None \<notin> set (elems (row_set (b ! nat r) c v))"
    "props (row_set (b ! nat r) c v) = []"
    by (auto simp: row_set_def is_index_def dest!: subsetD[OF set_update_subset_insert])
  show ?thesis
    unfolding rows_ok_def b'
  proof
    fix rw assume "rw \<in> set (b[nat r := row_set (b ! nat r) c v])"
    then have "rw = row_set (b ! nat r) c v \<or> rw \<in> set b"
      using set_update_subset_insert[of b "nat r" "row_set (b ! nat r) c v"] by auto
    with new assms(1)
    show "int (length (elems rw)) = n \<and> None \<notin> set (elems rw) \<and> props rw = []"
      by (auto simp: rows_ok_def)
  qed
qed

text \<open>The state of a running game: as many rows as \<^verbatim>\<open>size\<close> says, each a full row;
  a size that an array can have.\<close>

definition well_formed :: "GameLogicService \<Rightarrow> bool" where
  "well_formed s =
     (bsize s = int (length (board s)) \<and> bsize s \<le> 4294967295 \<and>
      rows_ok (bsize s) (board s))"

lemma well_formed_grid: "well_formed s \<Longrightarrow> grid s"
  by (auto simp: well_formed_def grid_def rows_ok_def)

lemma flipLoop_rows_ok:
  "rows_ok n b \<Longrightarrow> \<forall>f \<in> set fl. 0 \<le> snd f \<and> snd f < n \<Longrightarrow> n \<le> 4294967295 \<Longrightarrow>
     rows_ok n (snd (flipLoop b fl to)) \<and> length (snd (flipLoop b fl to)) = length b"
proof (induction fl arbitrary: b)
  case Nil
  then show ?case by simp
next
  case (Cons f fl)
  show ?case
  proof (cases "wr b (fst f) (snd f) to")
    case (Inl e)
    with Cons.prems show ?thesis by simp
  next
    case (Inr b1)
    from wr_rows_ok[OF Cons.prems(1) Inr] Cons.prems(2,3) have "rows_ok n b1" by simp
    from Cons.IH[OF this] Cons.prems(2,3) Inr length_wr[OF Inr] show ?thesis by simp
  qed
qed

lemma initBoard_well_formed:
  assumes "even sz" "2 \<le> sz" "sz < 4294967296"
  shows "well_formed (snd (initBoard sz s))"
proof -
  let ?b = "replicate (nat sz) (empty_row (nat sz))"
  from assms have m: "0 \<le> sz div 2 - 1" "sz div 2 - 1 < sz" "0 \<le> sz div 2" "sz div 2 < sz"
    by auto
  from assms have le: "sz \<le> 4294967295" by simp
  have r0: "rows_ok sz ?b" using assms by (auto simp: rows_ok_def empty_row_def)
  from m obtain b1 where b1: "wr ?b (sz div 2 - 1) (sz div 2 - 1) P_player = Inr b1"
    by (auto simp: wr_def)
  from m length_wr[OF b1] obtain b2 where b2: "wr b1 (sz div 2) (sz div 2) P_player = Inr b2"
    by (auto simp: wr_def)
  from m length_wr[OF b1] length_wr[OF b2] obtain b3
    where b3: "wr b2 (sz div 2 - 1) (sz div 2) P_ia = Inr b3"
    by (auto simp: wr_def)
  from m length_wr[OF b1] length_wr[OF b2] length_wr[OF b3] obtain b4
    where b4: "wr b3 (sz div 2) (sz div 2 - 1) P_ia = Inr b4"
    by (auto simp: wr_def)
  note r1 = wr_rows_ok[OF r0 b1 m(1,2) le]
  note r2 = wr_rows_ok[OF r1 b2 m(3,4) le]
  note r3 = wr_rows_ok[OF r2 b3 m(3,4) le]
  note r4 = wr_rows_ok[OF r3 b4 m(1,2) le]
  have "length b4 = nat sz"
    using length_wr[OF b1] length_wr[OF b2] length_wr[OF b3] length_wr[OF b4] by simp
  with r4 assms b1 b2 b3 b4 show ?thesis
    by (simp add: initBoard_def Let_def well_formed_def)
qed

lemma playMove_board:
  "bsize (snd (playMove row col s)) = bsize s \<and>
   (board (snd (playMove row col s)) = board s \<or>
    (isValidMove s row col (currentPlayer s) = Inr True \<and>
     (\<exists>fl. getFlippableDiscs s row col (currentPlayer s) = Inr fl \<and>
        (board (snd (playMove row col s)) = snd (flipLoop (board s) fl (currentPlayer s)) \<or>
         wr (snd (flipLoop (board s) fl (currentPlayer s))) row col (currentPlayer s)
           = Inr (board (snd (playMove row col s)))))))"
  by (auto simp: playMove_def Let_def split: sum.splits prod.splits)

lemma playMove_well_formed:
  assumes wf: "well_formed s"
  shows "well_formed (snd (playMove row col s))"
proof -
  let ?s' = "snd (playMove row col s)"
  from wf have r0: "rows_ok (bsize s) (board s)" and l0: "bsize s = int (length (board s))"
    and le: "bsize s \<le> 4294967295"
    unfolding well_formed_def by blast+
  from playMove_board[of row col s] have bs: "bsize ?s' = bsize s" by blast
  have "rows_ok (bsize s) (board ?s') \<and> length (board ?s') = length (board s)"
  proof (cases "board ?s' = board s")
    case True
    with r0 show ?thesis by simp
  next
    case False
    with playMove_board[of row col s] obtain fl
      where v: "isValidMove s row col (currentPlayer s) = Inr True"
        and fl: "getFlippableDiscs s row col (currentPlayer s) = Inr fl"
        and b: "board ?s' = snd (flipLoop (board s) fl (currentPlayer s)) \<or>
                wr (snd (flipLoop (board s) fl (currentPlayer s))) row col (currentPlayer s)
                  = Inr (board ?s')"
      by blast
    have rp: "rows_present s" using l0 by (simp add: rows_present_def)
    have g: "grid s" by (rule well_formed_grid[OF wf])
    from v have inr: "0 \<le> row \<and> row < bsize s"
      using isValidMove_throws[OF rp, of row col "currentPlayer s"] by auto
    with v have e: "rd (board s) row col = Inr (Some P_empty)"
      using isValidMove_eq[OF rp, of row col "currentPlayer s"] by simp
    with grid_off_board[OF g, of row col] inr have col: "0 \<le> col" "col < bsize s" by auto
    have flb: "\<forall>f \<in> set fl. 0 \<le> snd f \<and> snd f < bsize s"
      using getFlippableDiscs_set[OF fl] by (auto simp: inBounds_def)
    note f1 = flipLoop_rows_ok[OF r0 flb le, of "currentPlayer s"]
    from b show ?thesis
    proof
      assume "board ?s' = snd (flipLoop (board s) fl (currentPlayer s))"
      with f1 show ?thesis by simp
    next
      assume w: "wr (snd (flipLoop (board s) fl (currentPlayer s))) row col (currentPlayer s)
                  = Inr (board ?s')"
      from f1 have "rows_ok (bsize s) (snd (flipLoop (board s) fl (currentPlayer s)))" by blast
      from wr_rows_ok[OF this w col le] length_wr[OF w] f1 show ?thesis by simp
    qed
  qed
  with bs l0 le show ?thesis by (simp add: well_formed_def)
qed

subsection \<open>The start position of side 8\<close>

text \<open>\<^verbatim>\<open>getScores\<close>: the discs of \<^verbatim>\<open>'player'\<close> and of \<^verbatim>\<open>'ia'\<close>.\<close>

definition getScores :: "GameLogicService \<Rightarrow> int \<times> int" where
  "getScores s =
     foldl (\<lambda>acc rw.
        foldl (\<lambda>(playerScore, iaScore) cell.
           if cell = Some P_player then (playerScore + 1, iaScore)
           else if cell = Some P_ia then (playerScore, iaScore + 1)
           else (playerScore, iaScore)) acc (elems rw))
       (0, 0) (board s)"

definition service8 :: GameLogicService where
  "service8 =
     \<lparr>board =
        [mk_row [P_empty, P_empty, P_empty, P_empty, P_empty, P_empty, P_empty, P_empty],
         mk_row [P_empty, P_empty, P_empty, P_empty, P_empty, P_empty, P_empty, P_empty],
         mk_row [P_empty, P_empty, P_empty, P_empty, P_empty, P_empty, P_empty, P_empty],
         mk_row [P_empty, P_empty, P_empty, P_player, P_ia, P_empty, P_empty, P_empty],
         mk_row [P_empty, P_empty, P_empty, P_ia, P_player, P_empty, P_empty, P_empty],
         mk_row [P_empty, P_empty, P_empty, P_empty, P_empty, P_empty, P_empty, P_empty],
         mk_row [P_empty, P_empty, P_empty, P_empty, P_empty, P_empty, P_empty, P_empty],
         mk_row [P_empty, P_empty, P_empty, P_empty, P_empty, P_empty, P_empty, P_empty]],
      bsize = 8, currentPlayer = P_player, lastFlipped = []\<rparr>"

lemma init8: "initBoard 8 fresh_service = (Inr (), service8)"
  by (simp add: initBoard_def fresh_service_def service8_def mk_row_def wr_def
      row_set_def is_index_def empty_row_def Let_def eval_nat_numeral)

lemma moves8: "getValidMoves service8 P_player = Inr [(2, 4), (3, 5), (4, 2), (5, 3)]"
  by code_simp

lemma flips8: "getFlippableDiscs service8 2 4 P_player = Inr [(3, 4)]"
  by code_simp

lemma eval8: "evaluate (board service8) P_player = Inr 0"
  by code_simp


lemma play8:
  "fst (playMove 2 4 service8) = Inr True"
  "getScores (snd (playMove 2 4 service8)) = (4, 1)"
  "rd (board (snd (playMove 2 4 service8))) 3 4 = Inr (Some P_player)"
  "currentPlayer (snd (playMove 2 4 service8)) = P_ia"
  by code_simp+

section \<open>Passes and leaves of the search\<close>

text \<open>A position where \<^verbatim>\<open>'player'\<close> has no move and \<^verbatim>\<open>'ia'\<close> has one, and the board
  with no disc, where nobody has a move.\<close>

definition pass_board :: Board where
  "pass_board =
     [mk_row [P_ia, P_player, P_empty, P_empty],
      mk_row [P_empty, P_empty, P_empty, P_empty],
      mk_row [P_empty, P_empty, P_empty, P_empty],
      mk_row [P_empty, P_empty, P_empty, P_empty]]"

definition blank_board :: Board where
  "blank_board =
     [mk_row [P_empty, P_empty, P_empty, P_empty],
      mk_row [P_empty, P_empty, P_empty, P_empty],
      mk_row [P_empty, P_empty, P_empty, P_empty],
      mk_row [P_empty, P_empty, P_empty, P_empty]]"

lemma pass_board_moves:
  "ai_getValidMoves pass_board P_player = Inr []"
  "ai_getValidMoves pass_board P_ia = Inr [(0, 2)]"
  by code_simp+

lemma blank_board_moves:
  "ai_getValidMoves blank_board P_player = Inr []"
  "ai_getValidMoves blank_board P_ia = Inr []"
  by code_simp+

lemma opponent_cases: "opponent p = P_ia \<and> p = P_player \<or> opponent p = P_player \<and> p \<noteq> P_player"
  by (simp add: opponent_def)

text \<open>
  C3. At a node of \<^verbatim>\<open>minimax\<close> where the side to move has no legal move and the
  opponent has one, the value is that of the same board searched at the same depth and
  with the same bounds with the opponent to move: the pass costs no depth. Where neither
  the side to move nor its opponent has a legal move, the value is the leaf value
  \<^verbatim>\<open>evaluate(board, rootPlayer)\<close>.
\<close>

theorem minimax_pass_and_leaf:
  "(ai_getValidMoves b toMove = Inr [] \<and>
    (\<exists>oms. ai_getValidMoves b (opponent toMove) = Inr oms \<and> oms \<noteq> []) \<longrightarrow>
      minimax b depth alpha beta rootPlayer toMove
        = minimax b depth alpha beta rootPlayer (opponent toMove)) \<and>
   (ai_getValidMoves b toMove = Inr [] \<and> ai_getValidMoves b (opponent toMove) = Inr [] \<longrightarrow>
      minimax b depth alpha beta rootPlayer toMove
        = (case evaluate b rootPlayer of Inl e \<Rightarrow> Inl e | Inr x \<Rightarrow> Inr (Num x)))"
proof (intro conjI impI)
  assume "ai_getValidMoves b toMove = Inr [] \<and>
    (\<exists>oms. ai_getValidMoves b (opponent toMove) = Inr oms \<and> oms \<noteq> [])"
  then obtain oms where ms: "ai_getValidMoves b toMove = Inr []"
    and oms: "ai_getValidMoves b (opponent toMove) = Inr oms" "oms \<noteq> []" by blast
  show "minimax b depth alpha beta rootPlayer toMove
        = minimax b depth alpha beta rootPlayer (opponent toMove)"
  proof (cases "depth = 0")
    case True
    then show ?thesis
      by (subst minimax.simps, subst (2) minimax.simps) simp
  next
    case False
    obtain pms where pms: "ai_getValidMoves b P_player = Inr pms"
      by (simp add: ai_getValidMoves_eq)
    obtain ims where ims: "ai_getValidMoves b P_ia = Inr ims"
      by (simp add: ai_getValidMoves_eq)
    from opponent_cases[of toMove] oms pms ims have "pms \<noteq> [] \<or> ims \<noteq> []" by auto
    with pms ims have t: "isTerminal b = Inr False" by (auto simp: isTerminal_def)
    from False t ms oms show ?thesis
      by (subst minimax.simps) simp
  qed
next
  assume a: "ai_getValidMoves b toMove = Inr [] \<and> ai_getValidMoves b (opponent toMove) = Inr []"
  obtain t where t: "isTerminal b = Inr t" by (simp add: isTerminal_eq)
  from a t have "minimax b depth alpha beta rootPlayer toMove = leaf b rootPlayer"
    by (subst minimax.simps) simp
  then show "minimax b depth alpha beta rootPlayer toMove
        = (case evaluate b rootPlayer of Inl e \<Rightarrow> Inl e | Inr x \<Rightarrow> Inr (Num x))"
    by (simp add: leaf_def)
qed

theorem minimax_pass_and_leaf_witness:
  "ai_getValidMoves pass_board P_player = Inr [] \<and>
   ai_getValidMoves pass_board (opponent P_player) = Inr [(0, 2)] \<and>
   minimax pass_board 3 NegInf PosInf P_ia P_player
     = minimax pass_board 3 NegInf PosInf P_ia (opponent P_player) \<and>
   ai_getValidMoves blank_board P_player = Inr [] \<and>
   ai_getValidMoves blank_board (opponent P_player) = Inr [] \<and>
   minimax blank_board 3 NegInf PosInf P_ia P_player
     = (case evaluate blank_board P_ia of Inl e \<Rightarrow> Inl e | Inr x \<Rightarrow> Inr (Num x))"
  using minimax_pass_and_leaf[of pass_board P_player 3 NegInf PosInf P_ia]
    minimax_pass_and_leaf[of blank_board P_player 3 NegInf PosInf P_ia]
  by (simp add: pass_board_moves blank_board_moves opponent_def)

section \<open>Choosing a move by difficulty\<close>

datatype Difficulty = Facile | Moyen | Difficile | Expert

definition depthByDifficulty :: "Difficulty \<Rightarrow> int" where
  "depthByDifficulty d = (case d of Facile \<Rightarrow> 1 | Moyen \<Rightarrow> 2 | Difficile \<Rightarrow> 3 | Expert \<Rightarrow> 5)"

text \<open>
  The numbers the literals \<^verbatim>\<open>0.9\<close>, \<^verbatim>\<open>0.3\<close>, \<^verbatim>\<open>0.08\<close> and \<^verbatim>\<open>0.0\<close> denote: the nearest
  doubles. A draw is a double too, so the comparison of a draw with one of them is the
  comparison of the two reals.
\<close>

definition randomnessByDifficulty :: "Difficulty \<Rightarrow> real" where
  "randomnessByDifficulty d =
     (case d of
        Facile \<Rightarrow> 8106479329266893 / 9007199254740992
      | Moyen \<Rightarrow> 5404319552844595 / 18014398509481984
      | Difficile \<Rightarrow> 5764607523034235 / 72057594037927936
      | Expert \<Rightarrow> 0)"

text \<open>The double that the literal \<^verbatim>\<open>0.8\<close> denotes.\<close>

definition double_0_8 :: real where
  "double_0_8 = 3602879701896397 / 4503599627370496"

text \<open>
  The random source is the sequence of the values that the calls of
  \<^verbatim>\<open>Math.random()\<close> to come will return. A call takes the first and leaves the rest.
\<close>

type_synonym random_source = "nat \<Rightarrow> real"

definition draw :: "random_source \<Rightarrow> real \<times> random_source" where
  "draw rnd = (rnd 0, (\<lambda>i. rnd (Suc i)))"

text \<open>
  \<^verbatim>\<open>Math.floor(r * n)\<close> for a draw \<open>r\<close> (a double in \<open>[0, 1)\<close>) and an array length
  \<open>n\<close>: the product is the double nearest the exact product, ties going to the even
  significand, and the floor is taken of that double. Between \<open>2^e\<close> and \<open>2^(e+1)\<close>
  the doubles are \<open>2^(e-52)\<close> apart; a product below 1 is rounded at the spacing of
  \<open>[1/2, 1)\<close>, which gives the floor of the double product (0 below \<open>1/2\<close> either way).
\<close>

fun bit_length :: "nat \<Rightarrow> nat" where
  "bit_length n = (if n = 0 then 0 else Suc (bit_length (n div 2)))"

declare bit_length.simps [simp del]

definition pow2 :: "int \<Rightarrow> real" where
  "pow2 k = (if 0 \<le> k then 2 ^ nat k else 1 / 2 ^ nat (- k))"

definition round_even :: "real \<Rightarrow> int" where
  "round_even q =
     (let f = \<lfloor>q\<rfloor>; d = q - real_of_int f
      in if d < 1 / 2 \<or> (d = 1 / 2 \<and> even f) then f else f + 1)"

definition floor_product :: "real \<Rightarrow> nat \<Rightarrow> int" where
  "floor_product r n =
     (let p = r * real n;
          e = (if p < 1 then - 1 else int (bit_length (nat \<lfloor>p\<rfloor>)) - 1);
          u = pow2 (e - 52)
      in \<lfloor>real_of_int (round_even (p / u)) * u\<rfloor>)"

text \<open>
  \<^verbatim>\<open>moves[Math.floor(Math.random() * moves.length)]\<close>; \<open>None\<close> is the \<^verbatim>\<open>undefined\<close> that
  an index outside the array reads, which a draw in \<open>[0, 1)\<close> never produces on a
  non-empty array.
\<close>

definition randomChoice :: "'a list \<Rightarrow> random_source \<Rightarrow> 'a option \<times> random_source" where
  "randomChoice moves rnd =
     (case draw rnd of
        (r, rnd') \<Rightarrow>
          let i = floor_product r (length moves)
          in (if 0 \<le> i \<and> i < int (length moves) then Some (moves ! nat i) else None, rnd'))"

fun bestLoop ::
  "Board \<Rightarrow> Player \<Rightarrow> (int \<times> int) list \<Rightarrow> (int \<times> int) option \<Rightarrow> jsnum
    \<Rightarrow> error + (int \<times> int) option" where
  "bestLoop b pl [] best bestFlips = Inr best"
| "bestLoop b pl (m # ms) best bestFlips =
     (case ai_getFlippableDiscs b (fst m) (snd m) pl of
        Inl e \<Rightarrow> Inl e
      | Inr fl \<Rightarrow>
          let flips = Num (real (length fl))
          in if flips > bestFlips then bestLoop b pl ms (Some m) flips
             else bestLoop b pl ms best bestFlips)"

definition getBestImmediateMove ::
  "Board \<Rightarrow> (int \<times> int) list \<Rightarrow> Player \<Rightarrow> error + (int \<times> int) option" where
  "getBestImmediateMove b moves pl =
     bestLoop b pl moves (case moves of [] \<Rightarrow> None | m # _ \<Rightarrow> Some m) NegInf"

fun mapE :: "('a \<Rightarrow> error + 'b) \<Rightarrow> 'a list \<Rightarrow> error + 'b list" where
  "mapE f [] = Inr []"
| "mapE f (x # xs) =
     (case f x of
        Inl e \<Rightarrow> Inl e
      | Inr y \<Rightarrow> (case mapE f xs of Inl e \<Rightarrow> Inl e | Inr ys \<Rightarrow> Inr (y # ys)))"

text \<open>\<^verbatim>\<open>choiceAmongTopMoves\<close>: the sort is the stable sort of \<^verbatim>\<open>Array.prototype.sort\<close>, by
  descending score.\<close>

definition choiceAmongTopMoves ::
  "Board \<Rightarrow> (int \<times> int) list \<Rightarrow> Player \<Rightarrow> nat \<Rightarrow> random_source
    \<Rightarrow> (error + (int \<times> int) option) \<times> random_source" where
  "choiceAmongTopMoves b moves pl k rnd =
     (case mapE (\<lambda>m.
              case applyMove b (fst m) (snd m) pl of
                Inl e \<Rightarrow> Inl e
              | Inr child \<Rightarrow>
                  (case evaluate child pl of Inl e \<Rightarrow> Inl e | Inr sc \<Rightarrow> Inr (m, sc)))
            moves of
        Inl e \<Rightarrow> (Inl e, rnd)
      | Inr evaluated \<Rightarrow>
          let sorted = sort_key (\<lambda>e. - snd e) evaluated;
              top = map fst (take (max 1 (min k (length sorted))) sorted)
          in (case randomChoice top rnd of (m, rnd') \<Rightarrow> (Inr m, rnd')))"

text \<open>\<^verbatim>\<open>chooseMove\<close> returns its result (or the exception) and the random source
  afterwards.\<close>

definition chooseMove ::
  "random_source \<Rightarrow> Board \<Rightarrow> Player \<Rightarrow> Difficulty
    \<Rightarrow> (error + (int \<times> int) option) \<times> random_source" where
  "chooseMove rnd b pl difficulty =
     (case ai_getValidMoves b pl of
        Inl e \<Rightarrow> (Inl e, rnd)
      | Inr moves \<Rightarrow>
          if length moves = 0 then (Inr None, rnd)
          else
            (case draw rnd of
               (rand, rnd1) \<Rightarrow>
                 let randProb = randomnessByDifficulty difficulty;
                     depth = depthByDifficulty difficulty
                 in case difficulty of
                      Facile \<Rightarrow>
                        if rand < randProb
                        then (case randomChoice moves rnd1 of (m, rnd2) \<Rightarrow> (Inr m, rnd2))
                        else (getBestImmediateMove b moves pl, rnd1)
                    | Moyen \<Rightarrow>
                        if rand < randProb
                        then (case randomChoice moves rnd1 of (m, rnd2) \<Rightarrow> (Inr m, rnd2))
                        else (case draw rnd1 of
                                (r2, rnd2) \<Rightarrow>
                                  if r2 < double_0_8 then (getBestImmediateMove b moves pl, rnd2)
                                  else (minimaxDecision b pl depth, rnd2))
                    | Difficile \<Rightarrow>
                        if rand < randProb then choiceAmongTopMoves b moves pl 3 rnd1
                        else (minimaxDecision b pl depth, rnd1)
                    | Expert \<Rightarrow> (minimaxDecision b pl depth, rnd1)))"

lemma maxLoop_finite:
  assumes "\<forall>m \<in> set ms. \<forall>a b. \<exists>x. f m a b = Inr (Num x)"
  shows "\<exists>y. maxLoop f ms (Num v) alpha beta = Inr (Num y)"
  using assms
proof (induction ms arbitrary: v alpha)
  case Nil
  then show ?case by simp
next
  case (Cons m ms)
  from Cons.prems[rule_format, of m alpha beta]
  obtain x where x: "f m alpha beta = Inr (Num x)" by auto
  have mx: "max (Num v) (Num x) = Num (max v x)"
    by (simp add: max_def less_eq_jsnum_def)
  from Cons.prems have "\<forall>m \<in> set ms. \<forall>a b. \<exists>x. f m a b = Inr (Num x)" by simp
  from Cons.IH[OF this] x mx show ?case by (simp add: Let_def)
qed

lemma minLoop_finite:
  assumes "\<forall>m \<in> set ms. \<forall>a b. \<exists>x. f m a b = Inr (Num x)"
  shows "\<exists>y. minLoop f ms (Num v) alpha beta = Inr (Num y)"
  using assms
proof (induction ms arbitrary: v beta)
  case Nil
  then show ?case by simp
next
  case (Cons m ms)
  from Cons.prems[rule_format, of m alpha beta]
  obtain x where x: "f m alpha beta = Inr (Num x)" by auto
  have mx: "min (Num v) (Num x) = Num (min v x)"
    by (simp add: min_def less_eq_jsnum_def)
  from Cons.prems have "\<forall>m \<in> set ms. \<forall>a b. \<exists>x. f m a b = Inr (Num x)" by simp
  from Cons.IH[OF this] x mx show ?case by (simp add: Let_def)
qed

lemma maxLoop_finite_start:
  assumes "\<forall>m \<in> set ms. \<forall>a b. \<exists>x. f m a b = Inr (Num x)" "ms \<noteq> []"
  shows "\<exists>y. maxLoop f ms NegInf alpha beta = Inr (Num y)"
proof -
  from assms(2) obtain m ms' where ms: "ms = m # ms'" by (cases ms) auto
  with assms(1)[rule_format, of m alpha beta]
  obtain x where x: "f m alpha beta = Inr (Num x)" by auto
  from assms(1) ms have "\<forall>m \<in> set ms'. \<forall>a b. \<exists>x. f m a b = Inr (Num x)" by simp
  from maxLoop_finite[OF this] x ms show ?thesis by (simp add: Let_def)
qed

lemma minLoop_finite_start:
  assumes "\<forall>m \<in> set ms. \<forall>a b. \<exists>x. f m a b = Inr (Num x)" "ms \<noteq> []"
  shows "\<exists>y. minLoop f ms PosInf alpha beta = Inr (Num y)"
proof -
  from assms(2) obtain m ms' where ms: "ms = m # ms'" by (cases ms) auto
  with assms(1)[rule_format, of m alpha beta]
  obtain x where x: "f m alpha beta = Inr (Num x)" by auto
  from assms(1) ms have "\<forall>m \<in> set ms'. \<forall>a b. \<exists>x. f m a b = Inr (Num x)" by simp
  from minLoop_finite[OF this] x ms show ?thesis by (simp add: Let_def)
qed

lemma minimax_finite:
  "2 \<le> length b \<Longrightarrow> \<exists>y. minimax b depth alpha beta rootPlayer toMove = Inr (Num y)"
proof (induction b depth alpha beta rootPlayer toMove rule: minimax.induct)
  case (1 b depth alpha beta rootPlayer toMove)
  note len = "1.prems"
  from leaf_ok[OF len] obtain x where lf: "leaf b rootPlayer = Inr (Num x)" by blast
  obtain t where t: "isTerminal b = Inr t" by (simp add: isTerminal_eq)
  obtain ms where ms: "ai_getValidMoves b toMove = Inr ms" by (simp add: ai_getValidMoves_eq)
  obtain oms where oms: "ai_getValidMoves b (opponent toMove) = Inr oms"
    by (simp add: ai_getValidMoves_eq)
  let ?f = "\<lambda>m a be. case applyMove b (fst m) (snd m) toMove of Inl e \<Rightarrow> Inl e
              | Inr child \<Rightarrow> minimax child (depth - 1) a be rootPlayer (opponent toMove)"
  consider (leaf) "depth = 0 \<or> t \<or> (length ms = 0 \<and> length oms = 0)"
    | (pass) "depth \<noteq> 0" "\<not> t" "length ms = 0" "length oms \<noteq> 0"
    | (maxi) "depth \<noteq> 0" "\<not> t" "length ms \<noteq> 0" "toMove = rootPlayer"
    | (mini) "depth \<noteq> 0" "\<not> t" "length ms \<noteq> 0" "toMove \<noteq> rootPlayer"
    by blast
  then show ?case
  proof cases
    case leaf
    then have "minimax b depth alpha beta rootPlayer toMove = Inr (Num x)"
      by (subst minimax.simps) (auto simp: t ms oms lf)
    then show ?thesis by simp
  next
    case pass
    have "minimax b depth alpha beta rootPlayer toMove
            = minimax b depth alpha beta rootPlayer (opponent toMove)"
      by (subst minimax.simps) (use pass in \<open>simp add: t ms oms\<close>)
    with "1.IH"(1)[OF pass(1) t pass(2) ms pass(3) oms pass(4) len] show ?thesis by simp
  next
    case maxi
    have "\<forall>m \<in> set ms. \<forall>a be. \<exists>x. ?f m a be = Inr (Num x)"
    proof (intro ballI allI)
      fix m a be assume m: "m \<in> set ms"
      from valid_move_child[OF ms m] obtain child
        where ch: "applyMove b (fst m) (snd m) toMove = Inr child"
          and l: "length child = length b" by blast
      from len l have l2: "2 \<le> length child" by simp
      from "1.IH"(2)[OF maxi(1) t maxi(2) ms maxi(3,4) m ch l2, of a be]
      show "\<exists>x. ?f m a be = Inr (Num x)" by (simp add: ch)
    qed
    from maxLoop_finite_start[OF this, of alpha beta] maxi(3)
    have "\<exists>y. maxLoop ?f ms NegInf alpha beta = Inr (Num y)" by auto
    moreover have "minimax b depth alpha beta rootPlayer toMove
                     = maxLoop ?f ms NegInf alpha beta"
      by (subst minimax.simps) (use t ms maxi in simp)
    ultimately show ?thesis by simp
  next
    case mini
    have "\<forall>m \<in> set ms. \<forall>a be. \<exists>x. ?f m a be = Inr (Num x)"
    proof (intro ballI allI)
      fix m a be assume m: "m \<in> set ms"
      from valid_move_child[OF ms m] obtain child
        where ch: "applyMove b (fst m) (snd m) toMove = Inr child"
          and l: "length child = length b" by blast
      from len l have l2: "2 \<le> length child" by simp
      from "1.IH"(3)[OF mini(1) t mini(2) ms mini(3,4) m ch l2, of a be]
      show "\<exists>x. ?f m a be = Inr (Num x)" by (simp add: ch)
    qed
    from minLoop_finite_start[OF this, of alpha beta] mini(3)
    have "\<exists>y. minLoop ?f ms PosInf alpha beta = Inr (Num y)" by auto
    moreover have "minimax b depth alpha beta rootPlayer toMove
                     = minLoop ?f ms PosInf alpha beta"
      by (subst minimax.simps) (use t ms mini in simp)
    ultimately show ?thesis by simp
  qed
qed

lemma rootLoop_some:
  assumes "\<forall>m \<in> set ms. \<forall>a b. \<exists>x. f m a b = Inr (Num x)"
  shows "\<exists>m'. rootLoop f ms s (Some m0) alpha beta = Inr (Some m')"
  using assms
proof (induction ms arbitrary: s m0 alpha)
  case Nil
  then show ?case by simp
next
  case (Cons m ms)
  from Cons.prems[rule_format, of m alpha beta]
  obtain x where x: "f m alpha beta = Inr (Num x)" by auto
  from Cons.prems have r: "\<forall>m \<in> set ms. \<forall>a b. \<exists>x. f m a b = Inr (Num x)" by simp
  show ?case
    using Cons.IH[OF r] x by (simp add: Let_def)
qed

lemma rootLoop_first:
  assumes "\<forall>m \<in> set ms. \<forall>a b. \<exists>x. f m a b = Inr (Num x)" "ms \<noteq> []"
  shows "\<exists>m'. rootLoop f ms NegInf None alpha beta = Inr (Some m')"
proof -
  from assms(2) obtain m ms' where ms: "ms = m # ms'" by (cases ms) auto
  with assms(1)[rule_format, of m alpha beta]
  obtain x where x: "f m alpha beta = Inr (Num x)" by auto
  have gt: "NegInf < Num x" by (simp add: less_jsnum_def less_eq_jsnum_def)
  from assms(1) ms have "\<forall>m \<in> set ms'. \<forall>a b. \<exists>x. f m a b = Inr (Num x)" by simp
  from rootLoop_some[OF this] x gt ms show ?thesis by (simp add: Let_def)
qed

lemma minimaxDecision_some:
  assumes ms: "ai_getValidMoves b pl = Inr ms" and ne: "ms \<noteq> []"
  shows "\<exists>m. minimaxDecision b pl depth = Inr (Some m)"
proof -
  let ?f = "\<lambda>m a be. case applyMove b (fst m) (snd m) pl of Inl e \<Rightarrow> Inl e
              | Inr child \<Rightarrow> minimax child (depth - 1) a be pl (opponent pl)"
  have "\<forall>m \<in> set ms. \<forall>a be. \<exists>x. ?f m a be = Inr (Num x)"
  proof (intro ballI allI)
    fix m a be assume m: "m \<in> set ms"
    from ms m have "ai_valid b pl m" "m \<in> set (cells (int (length b)))"
      by (auto simp: ai_getValidMoves_eq)
    then have len: "2 \<le> length b" by (rule valid_move_size)
    from valid_move_child[OF ms m] obtain child
      where ch: "applyMove b (fst m) (snd m) pl = Inr child"
        and l: "length child = length b" by blast
    from len l have "2 \<le> length child" by simp
    from minimax_finite[OF this, of "depth - 1" a be pl "opponent pl"]
    show "\<exists>x. ?f m a be = Inr (Num x)" by (simp add: ch)
  qed
  from rootLoop_first[OF this ne, of NegInf PosInf] ms ne show ?thesis
    by (simp add: minimaxDecision_def)
qed

text \<open>
  C6. For every board and player with at least one legal move: whatever values the
  random source returns, \<^verbatim>\<open>chooseMove(board, player, 'Expert')\<close> returns the same result,
  the decision of the search at depth 5, and that result is a move, not \<^verbatim>\<open>null\<close>. (It
  takes one value from the random source and does not look at it.)
\<close>

theorem chooseMove_expert_deterministic:
  assumes "ai_getValidMoves b pl = Inr ms" "ms \<noteq> []"
  shows "fst (chooseMove rnd b pl Expert) = fst (chooseMove rnd' b pl Expert) \<and>
         chooseMove rnd b pl Expert = (minimaxDecision b pl 5, snd (draw rnd)) \<and>
         (\<exists>m. fst (chooseMove rnd b pl Expert) = Inr (Some m))"
proof -
  have "\<And>r. chooseMove r b pl Expert = (minimaxDecision b pl 5, snd (draw r))"
    using assms by (simp add: chooseMove_def depthByDifficulty_def split: prod.splits)
  with minimaxDecision_some[OF assms, of 5] show ?thesis by simp
qed

theorem chooseMove_expert_deterministic_witness:
  "ai_getValidMoves pass_board P_ia = Inr [(0, 2)] \<and> [(0, 2) :: int \<times> int] \<noteq> [] \<and>
   fst (chooseMove (\<lambda>_. 0) pass_board P_ia Expert)
     = fst (chooseMove (\<lambda>_. 1 / 2) pass_board P_ia Expert) \<and>
   (\<exists>m. fst (chooseMove (\<lambda>_. 0) pass_board P_ia Expert) = Inr (Some m))"
proof -
  have ne: "[(0, 2) :: int \<times> int] \<noteq> []" by simp
  from chooseMove_expert_deterministic[OF pass_board_moves(2) ne, of "\<lambda>_. 0" "\<lambda>_. 1 / 2"]
    pass_board_moves(2) ne
  show ?thesis by blast
qed

subsection \<open>The search on the start position of side 4\<close>

lemma decision4: "minimaxDecision board4 P_ia 2 = Inr (Some (0, 1))"
  by code_simp

lemma plain4: "plainDecision board4 P_ia 2 = Inr (Some (0, 1))"
  by code_simp

section \<open>The evaluation formula\<close>

text \<open>
  The specification's wording of the score, term by term, over the cells of the board:
  the corners, the cells of the outer ring that are not corners, and the X-squares (the
  diagonal neighbours of the corners) are described by what they are, not enumerated.
\<close>

definition holds :: "Board \<Rightarrow> int \<times> int \<Rightarrow> Player \<Rightarrow> bool" where
  "holds b x p = (rd b (fst x) (snd x) = Inr (Some p))"

definition spec_count :: "Board \<Rightarrow> Player \<Rightarrow> int" where
  "spec_count b p = int (length (filter (\<lambda>x. holds b x p) (cells (int (length b)))))"

definition spec_legal_count :: "Board \<Rightarrow> Player \<Rightarrow> int" where
  "spec_legal_count b p =
     (case ai_getValidMoves b p of Inl e \<Rightarrow> 0 | Inr ms \<Rightarrow> int (length ms))"

definition is_corner :: "int \<Rightarrow> int \<times> int \<Rightarrow> bool" where
  "is_corner n x = ((fst x = 0 \<or> fst x = n - 1) \<and> (snd x = 0 \<or> snd x = n - 1))"

definition on_ring :: "int \<Rightarrow> int \<times> int \<Rightarrow> bool" where
  "on_ring n x = (fst x = 0 \<or> fst x = n - 1 \<or> snd x = 0 \<or> snd x = n - 1)"

definition is_x_square :: "int \<Rightarrow> int \<times> int \<Rightarrow> bool" where
  "is_x_square n x = ((fst x = 1 \<or> fst x = n - 2) \<and> (snd x = 1 \<or> snd x = n - 2))"

text \<open>\<open>wp\<close> per cell of the perspective, \<open>wo\<close> per cell of its opponent.\<close>

definition per_cell :: "Board \<Rightarrow> Player \<Rightarrow> int \<Rightarrow> int \<Rightarrow> (int \<times> int) list \<Rightarrow> int" where
  "per_cell b persp wp wo xs =
     sum_list (map (\<lambda>x. if holds b x persp then wp
                         else if holds b x (opponent persp) then wo else 0) xs)"

definition spec_evaluate :: "Board \<Rightarrow> Player \<Rightarrow> real" where
  "spec_evaluate b persp =
     (let n = int (length b);
          opp = opponent persp;
          pieceDiff = spec_count b persp - spec_count b opp;
          mobility = spec_legal_count b persp - spec_legal_count b opp;
          cornerScore = per_cell b persp 30 (- 30) (filter (is_corner n) (cells n));
          edgeScore = per_cell b persp 4 (- 4)
                        (filter (\<lambda>x. on_ring n x \<and> \<not> is_corner n x) (cells n));
          xPenalty = per_cell b persp (- 8) 8 (filter (is_x_square n) (cells n));
          endgameFactor = (if spec_count b P_empty \<le> 12 then 2 else 1 :: real)
      in 10 * real_of_int mobility + 5 * real_of_int edgeScore
         + (50 / 30) * real_of_int cornerScore
         + 2 * endgameFactor * real_of_int pieceDiff - real_of_int xPenalty)"

text \<open>Every cell of the board holds a value: no row is shorter than the board is high.\<close>

definition full_board :: "Board \<Rightarrow> bool" where
  "full_board b = (\<forall>x \<in> set (cells (int (length b))). rd b (fst x) (snd x) \<noteq> Inr None)"

lemma evaluate_eq:
  assumes "2 \<le> length b"
  shows "evaluate b rootPl =
     (let n = int (length b); opp = opponent rootPl;
          rootCount = count_cells b (\<lambda>v. v = Some rootPl) (cells n);
          oppCount = count_cells b (\<lambda>v. v \<noteq> Some rootPl \<and> v = Some opp) (cells n);
          empties = count_cells b (\<lambda>v. v \<noteq> Some rootPl \<and> v \<noteq> Some opp) (cells n);
          mobility = int (length (filter (ai_valid b rootPl) (cells n)))
                     - int (length (filter (ai_valid b opp) (cells n)));
          cornerScore = sum_list (map (cellw b rootPl opp 30)
                          [(0, 0), (0, n - 1), (n - 1, 0), (n - 1, n - 1)]);
          edgeScore = sum_list (map (cellw b rootPl opp 4)
                          (concat (map (\<lambda>i. [(0, i), (n - 1, i), (i, 0), (i, n - 1)]) [1..n - 2])));
          xPenalty = sum_list (map (cellw b rootPl opp (- 8))
                          [(1, 1), (1, n - 2), (n - 2, 1), (n - 2, n - 2)])
      in Inr (real_of_int (10 * mobility) + real_of_int (5 * edgeScore)
              + real_of_int (50 * cornerScore) / 30
              + 2 * (if empties \<le> 12 then 2 else 1) * real_of_int (rootCount - oppCount)
              + real_of_int (- 1 * xPenalty)))"
proof -
  let ?n = "int (length b)"
  have c: "\<forall>x \<in> set [(0, 0), (0, ?n - 1), (?n - 1, 0), (?n - 1, ?n - 1)].
             0 \<le> fst x \<and> fst x < ?n"
    using assms by auto
  have e: "\<forall>x \<in> set (concat (map (\<lambda>i. [(0, i), (?n - 1, i), (i, 0), (i, ?n - 1)]) [1..?n - 2])).
             0 \<le> fst x \<and> fst x < ?n"
    using assms by auto
  have x: "\<forall>x \<in> set [(1, 1), (1, ?n - 2), (?n - 2, 1), (?n - 2, ?n - 2)].
             0 \<le> fst x \<and> fst x < ?n"
    using assms by auto
  show ?thesis
    unfolding evaluate_def Let_def
    by (simp add: counts_eq ai_getValidMoves_eq bindE_def tally_eq[OF c] tally_eq[OF e]
        tally_eq[OF x] del: set_concat)
qed

lemma sum_list_same_cells:
  fixes f :: "'a \<Rightarrow> int"
  assumes "distinct xs" "distinct ys" "set xs = set ys"
  shows "sum_list (map f xs) = sum_list (map f ys)"
proof -
  have "sum_list (map f xs) = sum f (set xs)"
    using assms(1) by (simp add: sum.distinct_set_conv_list)
  also have "\<dots> = sum f (set ys)" by (simp add: assms(3))
  also have "\<dots> = sum_list (map f ys)"
    using assms(2) by (simp add: sum.distinct_set_conv_list)
  finally show ?thesis .
qed

lemma corner_cells:
  assumes "2 \<le> n"
  shows "sum_list (map f [(0, 0), (0, n - 1), (n - 1, 0), (n - 1, n - 1)])
         = sum_list (map (f :: int \<times> int \<Rightarrow> int) (filter (is_corner n) (cells n)))"
proof (rule sum_list_same_cells)
  show "distinct [(0, 0), (0, n - 1), (n - 1, 0), (n - 1, n - 1)]" using assms by auto
  show "distinct (filter (is_corner n) (cells n))" by (simp add: distinct_cells)
  show "set [(0, 0), (0, n - 1), (n - 1, 0), (n - 1, n - 1)]
          = set (filter (is_corner n) (cells n))"
    using assms by (auto simp: set_cells is_corner_def)
qed

lemma x_square_cells:
  assumes "4 \<le> n"
  shows "sum_list (map f [(1, 1), (1, n - 2), (n - 2, 1), (n - 2, n - 2)])
         = sum_list (map (f :: int \<times> int \<Rightarrow> int) (filter (is_x_square n) (cells n)))"
proof (rule sum_list_same_cells)
  show "distinct [(1, 1), (1, n - 2), (n - 2, 1), (n - 2, n - 2)]" using assms by auto
  show "distinct (filter (is_x_square n) (cells n))" by (simp add: distinct_cells)
  show "set [(1, 1), (1, n - 2), (n - 2, 1), (n - 2, n - 2)]
          = set (filter (is_x_square n) (cells n))"
    using assms by (auto simp: set_cells is_x_square_def)
qed

lemma edge_cells:
  assumes "2 \<le> n"
  shows "sum_list (map f (concat (map (\<lambda>i. [(0, i), (n - 1, i), (i, 0), (i, n - 1)]) [1..n - 2])))
         = sum_list (map (f :: int \<times> int \<Rightarrow> int)
             (filter (\<lambda>x. on_ring n x \<and> \<not> is_corner n x) (cells n)))"
proof (rule sum_list_same_cells)
  show "distinct (concat (map (\<lambda>i. [(0, i), (n - 1, i), (i, 0), (i, n - 1)]) [1..n - 2]))"
  proof (rule distinct_concat)
    show "distinct (map (\<lambda>i. [(0, i), (n - 1, i), (i, 0), (i, n - 1)]) [1..n - 2])"
      by (auto simp: distinct_map inj_on_def)
  next
    fix ys assume "ys \<in> set (map (\<lambda>i. [(0, i), (n - 1, i), (i, 0), (i, n - 1)]) [1..n - 2])"
    then show "distinct ys" using assms by auto
  next
    fix ys zs
    assume "ys \<in> set (map (\<lambda>i. [(0, i), (n - 1, i), (i, 0), (i, n - 1)]) [1..n - 2])"
      "zs \<in> set (map (\<lambda>i. [(0, i), (n - 1, i), (i, 0), (i, n - 1)]) [1..n - 2])" "ys \<noteq> zs"
    then show "set ys \<inter> set zs = {}" by auto
  qed
  show "distinct (filter (\<lambda>x. on_ring n x \<and> \<not> is_corner n x) (cells n))"
    by (simp add: distinct_cells)
  show "set (concat (map (\<lambda>i. [(0, i), (n - 1, i), (i, 0), (i, n - 1)]) [1..n - 2]))
          = set (filter (\<lambda>x. on_ring n x \<and> \<not> is_corner n x) (cells n))"
    using assms by (auto simp: set_cells on_ring_def is_corner_def)
qed

lemma cellw_holds:
  "cellw b persp opp w =
     (\<lambda>x. if holds b x persp then w else if holds b x opp then - w else 0)"
  by (rule ext) (simp add: cellw_def holds_def)

lemma count_own: "count_cells b (\<lambda>v. v = Some p) (cells (int (length b))) = spec_count b p"
  by (simp add: count_cells_def spec_count_def holds_def)

lemma count_opp:
  "count_cells b (\<lambda>v. v \<noteq> Some p \<and> v = Some (opponent p)) (cells (int (length b)))
     = spec_count b (opponent p)"
proof -
  have "opponent p \<noteq> p" by (simp add: opponent_def)
  then have "(\<lambda>x. \<exists>v. rd b (fst x) (snd x) = Inr v \<and> v \<noteq> Some p \<and> v = Some (opponent p))
             = (\<lambda>x. holds b x (opponent p))"
    by (auto simp: holds_def)
  then show ?thesis by (simp add: count_cells_def spec_count_def)
qed

lemma count_empty:
  assumes "p \<noteq> P_empty" "full_board b"
  shows "count_cells b (\<lambda>v. v \<noteq> Some p \<and> v \<noteq> Some (opponent p)) (cells (int (length b)))
     = spec_count b P_empty"
proof -
  have "filter (\<lambda>x. \<exists>v. rd b (fst x) (snd x) = Inr v \<and> v \<noteq> Some p \<and> v \<noteq> Some (opponent p))
          (cells (int (length b)))
        = filter (\<lambda>x. holds b x P_empty) (cells (int (length b)))"
  proof (rule filter_cong[OF refl])
    fix x assume x: "x \<in> set (cells (int (length b)))"
    then obtain v where v: "rd b (fst x) (snd x) = Inr v" by (auto simp: set_cells rd_def)
    with assms(2) x obtain q where q: "v = Some q" by (cases v) (auto simp: full_board_def)
    from assms(1) have "q \<noteq> p \<and> q \<noteq> opponent p \<longleftrightarrow> q = P_empty"
      by (cases p; cases q) (auto simp: opponent_def)
    with v q show "(\<exists>v. rd b (fst x) (snd x) = Inr v \<and> v \<noteq> Some p \<and> v \<noteq> Some (opponent p))
                   = holds b x P_empty"
      by (auto simp: holds_def)
  qed
  then show ?thesis by (simp add: count_cells_def spec_count_def)
qed

lemma legal_count: "int (length (filter (ai_valid b p) (cells (int (length b))))) = spec_legal_count b p"
  by (simp add: spec_legal_count_def ai_getValidMoves_eq)

text \<open>
  C4. For every board of four rows or more in which every cell holds a value, and for
  either side as perspective, \<^verbatim>\<open>evaluate\<close> returns exactly
  \<open>10 mobility + 5 edgeScore + (50/30) cornerScore + 2 endgameFactor pieceDiff - xPenalty\<close>:
  mobility the difference of the legal-move counts, cornerScore 30 per corner of the
  perspective and - 30 per corner of the opponent, edgeScore 4 and - 4 per cell of the outer
  ring that is not a corner, xPenalty - 8 per X-square of the perspective and 8 per X-square
  of the opponent, endgameFactor 2 when at most 12 cells are empty and 1 otherwise.
\<close>

theorem evaluate_formula:
  assumes "4 \<le> length b" "persp \<noteq> P_empty" "full_board b"
  shows "evaluate b persp = Inr (spec_evaluate b persp)"
proof -
  let ?n = "int (length b)"
  from assms(1) have n2: "2 \<le> length b" and i2: "2 \<le> ?n" and i4: "4 \<le> ?n" by auto
  have corner: "sum_list (map (cellw b persp (opponent persp) 30)
                   [(0, 0), (0, ?n - 1), (?n - 1, 0), (?n - 1, ?n - 1)])
                = per_cell b persp 30 (- 30) (filter (is_corner ?n) (cells ?n))"
    unfolding corner_cells[OF i2] by (simp add: per_cell_def cellw_holds)
  have edge: "sum_list (map (cellw b persp (opponent persp) 4)
                 (concat (map (\<lambda>i. [(0, i), (?n - 1, i), (i, 0), (i, ?n - 1)]) [1..?n - 2])))
              = per_cell b persp 4 (- 4)
                  (filter (\<lambda>x. on_ring ?n x \<and> \<not> is_corner ?n x) (cells ?n))"
    unfolding edge_cells[OF i2] by (simp add: per_cell_def cellw_holds)
  have xs: "sum_list (map (cellw b persp (opponent persp) (- 8))
               [(1, 1), (1, ?n - 2), (?n - 2, 1), (?n - 2, ?n - 2)])
            = per_cell b persp (- 8) 8 (filter (is_x_square ?n) (cells ?n))"
    unfolding x_square_cells[OF i4] by (simp add: per_cell_def cellw_holds cong: if_cong)
  show ?thesis
    unfolding evaluate_eq[OF n2] spec_evaluate_def Let_def corner edge xs
      count_own count_opp count_empty[OF assms(2,3)] legal_count
    by simp
qed

lemma full_board4: "full_board board4"
  unfolding full_board_def by code_simp

theorem evaluate_formula_witness:
  "4 \<le> length board4 \<and> P_ia \<noteq> P_empty \<and> full_board board4 \<and>
   evaluate board4 P_ia = Inr (spec_evaluate board4 P_ia)"
proof -
  have l: "4 \<le> length board4" by (simp add: board4_def)
  have p: "P_ia \<noteq> P_empty" by simp
  from evaluate_formula[OF l p full_board4] l p full_board4 show ?thesis by simp
qed

section \<open>applyMove on a heap of rows\<close>

text \<open>
  Whether \<^verbatim>\<open>applyMove\<close> touches the board it is given is a question about aliasing, so
  here the rows are objects in a heap: the heap is the list of the rows allocated so far,
  an address is an index into it, and a board (the outer array) is the list of the
  addresses of its rows. \<^verbatim>\<open>applyMove\<close> never writes an outer array, only rows.
\<close>

type_synonym heap = "Row list"

type_synonym board_ref = "nat list"

text \<open>The board a reference denotes in a heap.\<close>

definition deref :: "heap \<Rightarrow> board_ref \<Rightarrow> Board" where
  "deref h brd = map (\<lambda>a. h ! a) brd"

text \<open>\<^verbatim>\<open>board.map(rowArr => rowArr.slice())\<close>: every row is copied into a row allocated at
  the end of the heap; the result is the addresses of the copies.\<close>

fun copy_rows :: "heap \<Rightarrow> nat list \<Rightarrow> heap \<times> nat list" where
  "copy_rows h [] = (h, [])"
| "copy_rows h (a # as) =
     (case copy_rows (h @ [row_slice (h ! a)]) as of (h', ns) \<Rightarrow> (h', length h # ns))"

text \<open>\<^verbatim>\<open>next[r][c] = v\<close>: the row object that \<^verbatim>\<open>next[r]\<close> refers to is updated in place.\<close>

definition h_wr :: "heap \<Rightarrow> board_ref \<Rightarrow> int \<Rightarrow> int \<Rightarrow> Player \<Rightarrow> error + heap" where
  "h_wr h brd r c v =
     (if 0 \<le> r \<and> r < int (length brd)
      then Inr (h[brd ! nat r := row_set (h ! (brd ! nat r)) c v])
      else Inl TypeError)"

fun h_flips :: "heap \<Rightarrow> board_ref \<Rightarrow> (int \<times> int) list \<Rightarrow> Player \<Rightarrow> (error + unit) \<times> heap" where
  "h_flips h brd [] pl = (Inr (), h)"
| "h_flips h brd (f # fs) pl =
     (case h_wr h brd (fst f) (snd f) pl of
        Inl e \<Rightarrow> (Inl e, h)
      | Inr h' \<Rightarrow> h_flips h' brd fs pl)"

definition h_applyMove ::
  "heap \<Rightarrow> board_ref \<Rightarrow> int \<Rightarrow> int \<Rightarrow> Player \<Rightarrow> (error + board_ref) \<times> heap" where
  "h_applyMove h brd row col pl =
     (case copy_rows h brd of
        (h1, next) \<Rightarrow>
          (case ai_getFlippableDiscs (deref h1 brd) row col pl of
             Inl e \<Rightarrow> (Inl e, h1)
           | Inr flips \<Rightarrow>
               (case h_flips h1 next flips pl of
                  (Inl e, h2) \<Rightarrow> (Inl e, h2)
                | (Inr _, h2) \<Rightarrow>
                    (case h_wr h2 next row col pl of
                       Inl e \<Rightarrow> (Inl e, h2)
                     | Inr h3 \<Rightarrow> (Inr next, h3)))))"

lemma upt_shift: "[m ..< m + Suc k] = m # [Suc m ..< Suc m + k]"
  by (subst upt_conv_Cons) auto

lemma copy_rows_eq:
  "\<forall>a \<in> set as. a < length h \<Longrightarrow>
     copy_rows h as =
       (h @ map (\<lambda>a. row_slice (h ! a)) as, [length h ..< length h + length as])"
proof (induction as arbitrary: h)
  case Nil
  then show ?case by simp
next
  case (Cons a as)
  let ?h = "h @ [row_slice (h ! a)]"
  from Cons.prems have lt: "\<forall>a \<in> set as. a < length ?h" by auto
  from Cons.prems have "map (\<lambda>a. row_slice (?h ! a)) as = map (\<lambda>a. row_slice (h ! a)) as"
    by (auto simp: nth_append)
  with Cons.IH[OF lt] have "copy_rows ?h as =
      (?h @ map (\<lambda>a. row_slice (h ! a)) as, [Suc (length h) ..< Suc (length h) + length as])"
    by simp
  then show ?case using upt_shift[of "length h" "length as"] by simp
qed

lemma deref_old:
  "\<forall>a \<in> set brd. a < length h \<Longrightarrow> length h \<le> length h' \<Longrightarrow>
   \<forall>a < length h. h' ! a = h ! a \<Longrightarrow> deref h' brd = deref h brd"
  by (simp add: deref_def)

lemma h_wr_refines:
  assumes d: "distinct next" and a: "\<forall>a \<in> set next. a < length h"
  shows "case h_wr h next r c v of
           Inl e \<Rightarrow> wr (deref h next) r c v = Inl e
         | Inr h' \<Rightarrow> wr (deref h next) r c v = Inr (deref h' next) \<and> length h' = length h \<and>
                     (\<forall>x. x \<notin> set next \<longrightarrow> h' ! x = h ! x)"
proof (cases "0 \<le> r \<and> r < int (length next)")
  case False
  then show ?thesis by (auto simp: h_wr_def wr_def deref_def)
next
  case True
  let ?k = "nat r"
  from True have k: "?k < length next" by auto
  have "(deref h next)[?k := row_set (deref h next ! ?k) c v]
        = deref (h[next ! ?k := row_set (h ! (next ! ?k)) c v]) next"
  proof (rule nth_equalityI)
    show "length ((deref h next)[?k := row_set (deref h next ! ?k) c v])
          = length (deref (h[next ! ?k := row_set (h ! (next ! ?k)) c v]) next)"
      by (simp add: deref_def)
  next
    fix i assume "i < length ((deref h next)[?k := row_set (deref h next ! ?k) c v])"
    then have i: "i < length next" by (simp add: deref_def)
    from d i k have "next ! i = next ! ?k \<longleftrightarrow> i = ?k" by (simp add: nth_eq_iff_index_eq)
    with i k a show "(deref h next)[?k := row_set (deref h next ! ?k) c v] ! i
          = deref (h[next ! ?k := row_set (h ! (next ! ?k)) c v]) next ! i"
      by (auto simp: deref_def nth_list_update)
  qed
  moreover from k have "\<forall>x. x \<notin> set next \<longrightarrow>
       h[next ! ?k := row_set (h ! (next ! ?k)) c v] ! x = h ! x"
    by (metis nth_list_update_neq nth_mem)
  ultimately show ?thesis using True by (simp add: h_wr_def wr_def deref_def)
qed

lemma h_flips_refines:
  assumes d: "distinct next"
  shows "\<forall>a \<in> set next. a < length h \<Longrightarrow>
    (case h_flips h next fl pl of
       (Inl e, h') \<Rightarrow> foldE (\<lambda>f nx. wr nx (fst f) (snd f) pl) fl (deref h next) = Inl e \<and>
                     length h' = length h \<and> (\<forall>x. x \<notin> set next \<longrightarrow> h' ! x = h ! x)
     | (Inr _, h') \<Rightarrow> foldE (\<lambda>f nx. wr nx (fst f) (snd f) pl) fl (deref h next)
                        = Inr (deref h' next) \<and>
                     length h' = length h \<and> (\<forall>x. x \<notin> set next \<longrightarrow> h' ! x = h ! x))"
proof (induction fl arbitrary: h)
  case Nil
  then show ?case by simp
next
  case (Cons f fl)
  note r = h_wr_refines[OF d Cons.prems, of "fst f" "snd f" pl]
  show ?case
  proof (cases "h_wr h next (fst f) (snd f) pl")
    case (Inl e)
    with r show ?thesis by simp
  next
    case (Inr h1)
    with r have w: "wr (deref h next) (fst f) (snd f) pl = Inr (deref h1 next)"
      and l: "length h1 = length h" and o: "\<forall>x. x \<notin> set next \<longrightarrow> h1 ! x = h ! x" by auto
    from l Cons.prems have "\<forall>a \<in> set next. a < length h1" by simp
    from Cons.IH[OF this] Inr w l o show ?thesis
      by (auto split: prod.splits sum.splits)
  qed
qed

lemma copied_board:
  assumes al: "\<forall>a \<in> set brd. a < length h"
  shows "deref (h @ map (\<lambda>a. row_slice (h ! a)) brd) [length h ..< length h + length brd]
           = map row_slice (deref h brd)"
  by (rule nth_equalityI) (auto simp: deref_def nth_append)

text \<open>
  C7. For every heap, board whose rows are allocated, coordinate and player: after
  \<^verbatim>\<open>applyMove\<close> every row that existed before is as it was, so the board given denotes the
  same cells; the board returned consists of rows allocated by the call, no two the same,
  and denotes what the search's \<open>applyMove\<close> computes from the board given. On a
  coordinate whose row is on the board, a legal move in particular, a board is returned.
\<close>

theorem applyMove_leaves_input:
  assumes al: "\<forall>a \<in> set brd. a < length h"
    and r: "h_applyMove h brd row col pl = (res, h')"
  shows "length h \<le> length h' \<and> (\<forall>a < length h. h' ! a = h ! a) \<and>
         deref h' brd = deref h brd \<and>
         (case res of
            Inl e \<Rightarrow> applyMove (deref h brd) row col pl = Inl e
          | Inr next \<Rightarrow>
              distinct next \<and> (\<forall>a \<in> set next. length h \<le> a \<and> a < length h') \<and>
              applyMove (deref h brd) row col pl = Inr (deref h' next)) \<and>
         (0 \<le> row \<and> row < int (length brd) \<longrightarrow> (\<exists>next. res = Inr next))"
proof -
  let ?h1 = "h @ map (\<lambda>a. row_slice (h ! a)) brd"
  let ?next = "[length h ..< length h + length brd]"
  have cp: "copy_rows h brd = (?h1, ?next)" by (rule copy_rows_eq[OF al])
  have d: "distinct ?next" by simp
  have a1: "\<forall>a \<in> set ?next. a < length ?h1" by simp
  have old1: "deref ?h1 brd = deref h brd" using al by (simp add: deref_def nth_append)
  have new1: "deref ?h1 ?next = map row_slice (deref h brd)" by (rule copied_board[OF al])
  have frame: "length h \<le> length h' \<and> (\<forall>a < length h. h' ! a = h ! a) \<and>
         (case res of
            Inl e \<Rightarrow> applyMove (deref h brd) row col pl = Inl e
          | Inr next \<Rightarrow>
              distinct next \<and> (\<forall>a \<in> set next. length h \<le> a \<and> a < length h') \<and>
              applyMove (deref h brd) row col pl = Inr (deref h' next))"
  proof (cases "ai_getFlippableDiscs (deref h brd) row col pl")
    case (Inl e)
    with r cp old1 have "res = Inl e" "h' = ?h1" by (auto simp: h_applyMove_def)
    with Inl show ?thesis by (simp add: applyMove_def nth_append)
  next
    case (Inr flips)
    obtain fr h2 where f: "h_flips ?h1 ?next flips pl = (fr, h2)"
      by (cases "h_flips ?h1 ?next flips pl") auto
    note hf = h_flips_refines[OF d a1, where fl = flips and pl = pl, unfolded f new1]
    show ?thesis
    proof (cases fr)
      case (Inl e)
      with r cp old1 Inr f have "res = Inl e" "h' = h2" by (auto simp: h_applyMove_def)
      with hf Inl Inr show ?thesis by (auto simp: applyMove_def nth_append)
    next
      case u: (Inr u)
      with hf have fo: "foldE (\<lambda>f nx. wr nx (fst f) (snd f) pl) flips (map row_slice (deref h brd))
                          = Inr (deref h2 ?next)"
        and l2: "length h2 = length ?h1" and o2: "\<forall>x. x \<notin> set ?next \<longrightarrow> h2 ! x = ?h1 ! x"
        by auto
      from l2 have a2: "\<forall>a \<in> set ?next. a < length h2" by simp
      note hw = h_wr_refines[OF d a2, where r = row and c = col and v = pl]
      show ?thesis
      proof (cases "h_wr h2 ?next row col pl")
        case (Inl e)
        with r cp old1 Inr f u have "res = Inl e" "h' = h2" by (auto simp: h_applyMove_def)
        with hw Inl Inr fo l2 o2 show ?thesis by (auto simp: applyMove_def nth_append)
      next
        case h3: (Inr h3)
        with r cp old1 Inr f u have "res = Inr ?next" "h' = h3" by (auto simp: h_applyMove_def)
        with hw h3 Inr fo l2 o2 show ?thesis by (auto simp: applyMove_def nth_append)
      qed
    qed
  qed
  then have "deref h' brd = deref h brd" using al by (intro deref_old) auto
  moreover have "0 \<le> row \<and> row < int (length brd) \<longrightarrow> (\<exists>next. res = Inr next)"
  proof
    assume "0 \<le> row \<and> row < int (length brd)"
    then have "0 \<le> row" "row < int (length (deref h brd))" by (simp_all add: deref_def)
    from applyMove_ok[OF this] obtain child
      where "applyMove (deref h brd) row col pl = Inr child" by blast
    with frame show "\<exists>next. res = Inr next" by (cases res) auto
  qed
  ultimately show ?thesis using frame by blast
qed

text \<open>The start position of side 4 in a heap that also holds a row of its own.\<close>

definition heap4 :: heap where
  "heap4 = board4 @ [mk_row [P_ia]]"

theorem applyMove_leaves_input_witness:
  "list_all (\<lambda>a. a < length heap4) [0, 1, 2, 3] \<and>
   deref (snd (h_applyMove heap4 [0, 1, 2, 3] 0 1 P_ia)) [0, 1, 2, 3] = deref heap4 [0, 1, 2, 3] \<and>
   (\<exists>next. fst (h_applyMove heap4 [0, 1, 2, 3] 0 1 P_ia) = Inr next)"
proof -
  have al: "\<forall>a \<in> set [0, 1, 2, 3]. a < length heap4"
    by (simp add: heap4_def board4_def)
  have "h_applyMove heap4 [0, 1, 2, 3] 0 1 P_ia
        = (fst (h_applyMove heap4 [0, 1, 2, 3] 0 1 P_ia), snd (h_applyMove heap4 [0, 1, 2, 3] 0 1 P_ia))"
    by simp
  from applyMove_leaves_input[OF al this] al show ?thesis by (simp add: list_all_iff)
qed

end
